theory Spec2Isabelle
  imports Complex_Main
begin

section \<open>Strings\<close>

text \<open>
  Python strings are modelled as \<^typ>\<open>string\<close>; \<open>len\<close> is \<^const>\<open>length\<close>.
  \<open>s.split(sep)\<close> with a one-character separator cuts at every occurrence of the
  separator and keeps empty pieces, so the result is never empty; \<open>sep.join(xs)\<close>
  puts the separator between consecutive elements.
\<close>

definition newline :: char where
  "newline = CHR 0x0A"

definition space :: char where
  "space = CHR 0x20"

fun push_char :: "char \<Rightarrow> string list \<Rightarrow> string list" where
  "push_char c [] = [[c]]"
| "push_char c (piece # pieces) = (c # piece) # pieces"

fun py_split :: "char \<Rightarrow> string \<Rightarrow> string list" where
  "py_split sep [] = [[]]"
| "py_split sep (c # cs) =
     (if c = sep then [] # py_split sep cs else push_char c (py_split sep cs))"

fun py_join :: "char \<Rightarrow> string list \<Rightarrow> string" where
  "py_join sep [] = []"
| "py_join sep [x] = x"
| "py_join sep (x # y # ys) = x @ sep # py_join sep (y # ys)"

section \<open>text\_split\<close>

text \<open>
  The loop of \<open>text_split\<close> over \<open>textList[1:]\<close>: \<open>tempList\<close> is the list of chunks
  built so far, \<open>wordCounter\<close> the running count. \<open>tempList[-1] += "\n" + line\<close>
  rewrites the last chunk; \<open>tempList\<close> is never empty there, since it starts as
  \<open>[textList[0]]\<close> and only grows. \<open>sizeLimit\<close> is an integer in the doctests and the
  float \<open>len(sources)/2\<close> in \<open>rag\<close>, so it is a \<^typ>\<open>real\<close> here and the comparison
  is the exact one Python makes between an int and a number.
\<close>

fun text_split_loop :: "string list \<Rightarrow> nat \<Rightarrow> string list \<Rightarrow> real \<Rightarrow> string list" where
  "text_split_loop tempList wordCounter [] sizeLimit = tempList"
| "text_split_loop tempList wordCounter (line # rest) sizeLimit =
     (if real (wordCounter + length line) < sizeLimit
      then text_split_loop (butlast tempList @ [last tempList @ newline # line])
             (wordCounter + length line) rest sizeLimit
      else text_split_loop (tempList @ [line]) (length line) rest sizeLimit)"

definition text_split :: "string \<Rightarrow> real \<Rightarrow> string list" where
  "text_split text sizeLimit =
     (let textList = py_split newline text
      in text_split_loop [hd textList] (length (hd textList)) (tl textList) sizeLimit)"

text \<open>
  Two measures used to state what the chunks satisfy. \<open>line_chars c\<close> is the number of
  characters of a chunk that are not newline separators: it is what \<open>wordCounter\<close>
  holds for the chunk. \<open>pack_lines\<close> is the same loop written with the current chunk
  apart from the finished ones; the loop is shown equal to it below.
\<close>

definition line_chars :: "string \<Rightarrow> nat" where
  "line_chars c = length (filter (\<lambda>x. x \<noteq> newline) c)"

fun pack_lines :: "string \<Rightarrow> nat \<Rightarrow> string list \<Rightarrow> real \<Rightarrow> string list" where
  "pack_lines cur wc [] sizeLimit = [cur]"
| "pack_lines cur wc (line # rest) sizeLimit =
     (if real (wc + length line) < sizeLimit
      then pack_lines (cur @ newline # line) (wc + length line) rest sizeLimit
      else cur # pack_lines line (length line) rest sizeLimit)"

definition doc3 :: string where
  "doc3 = ''AA'' @ [newline] @ ''BB'' @ [newline] @ ''CC''"

definition doc_example :: string where
  "doc_example = ''AAB'' @ [newline] @ ''DGF'' @ [newline] @ ''KBW''"

section \<open>Exceptions, the outside world and the store\<close>

text \<open>
  Every \<open>raise\<close> of the source is a value. \<open>OperationalError\<close> is what sqlite3 raises
  when the full-text index rejects a \<open>MATCH\<close> expression, \<open>GroqError\<close> any failure of
  the generation service inside \<open>run_llm\<close>, \<open>FetchError\<close> any exception that leaves
  \<open>fetch_page_data\<close>, \<open>TypeError\<close> the subscript of \<open>None\<close> after an empty
  \<open>fetchone()\<close>.
\<close>

datatype exn = OperationalError | GroqError string | FetchError string | TypeError

text \<open>The dict returned by \<open>fetch_page_data\<close>.\<close>

record page_data =
  pd_title :: string
  pd_publish_date :: string
  pd_crawl_date :: string
  pd_content :: string
  pd_links :: "string list"
  pd_url :: string

text \<open>
  A row of the FTS5 table \<open>articles\<close>. The table is a list in \<open>rowid\<close> order: the
  row at index \<open>i\<close> has \<open>rowid = i + 1\<close>, an insert appends, and nothing deletes.
\<close>

record article =
  title :: string
  content :: string
  url :: string
  publish_date :: string
  crawl_date :: string
  summary :: string
  depth :: int

text \<open>The calls of \<open>logging\<close>, one constructor for each message of the source.\<close>

datatype log_entry =
    Debug_sql
  | Info_get_keywords string
  | Info_outside_url string
  | Info_duplicate int string
  | Info_inserting int string
  | Info_too_long string
  | Info_fail_summarize string
  | Info_inserting_success
  | Error_caught exn

text \<open>
  What the program does not control: the generation service behind \<open>run_llm\<close>
  (its answer may differ from one call to the next, so it depends on the time of the
  call), the web behind \<open>fetch_page_data\<close> (\<open>None\<close> for a failed request or parse),
  and SQLite's FTS5 engine: which \<open>MATCH\<close> expressions it accepts, which rows match,
  and the score \<open>bm25(articles)\<close> of a row (lower is more relevant).
\<close>

record env =
  groq :: "nat \<Rightarrow> string \<Rightarrow> string \<Rightarrow> string \<Rightarrow> int option \<Rightarrow> string + string"
  web :: "nat \<Rightarrow> string \<Rightarrow> string + page_data option"
  fts5_accepts :: "string \<Rightarrow> bool"
  fts5_match :: "string \<Rightarrow> article \<Rightarrow> bool"
  bm25 :: "article list \<Rightarrow> string \<Rightarrow> article \<Rightarrow> real"

text \<open>
  The state: the table, the number of calls made to the outside so far, the URLs
  requested by \<open>fetch_page_data\<close> in order, and the log.
\<close>

record world =
  db :: "article list"
  clock :: nat
  fetched :: "string list"
  logged :: "log_entry list"

type_synonym 'a outcome = "((exn + 'a) \<times> world) option"

definition logging :: "log_entry \<Rightarrow> world \<Rightarrow> world" where
  "logging e w = w\<lparr>logged := logged w @ [e]\<rparr>"

section \<open>LLM functions\<close>

definition run_llm ::
  "env \<Rightarrow> world \<Rightarrow> string \<Rightarrow> string \<Rightarrow> string \<Rightarrow> int option \<Rightarrow> (exn + string) \<times> world" where
  "run_llm env w system user model seed =
     ((case groq env (clock w) system user model seed of
         Inl msg \<Rightarrow> Inl (GroqError msg)
       | Inr answer \<Rightarrow> Inr answer),
      w\<lparr>clock := Suc (clock w)\<rparr>)"

definition summarize_system :: string where
  "summarize_system = ''Summarize the input text below including the contents and details. Pay special attention to school, major, graduation requirements and courses. Must include any information related to major, graduation requirements and courses in detail and the school.''"

definition summarize_text ::
  "env \<Rightarrow> world \<Rightarrow> string \<Rightarrow> string \<Rightarrow> int option \<Rightarrow> (exn + string) \<times> world" where
  "summarize_text env w text model seed = run_llm env w summarize_system text model seed"

definition keywords_system :: string where
  "keywords_system = ''Find the most important keywords for the Text for searching, each keyword should be one to two words long. Separate the keywords with blanks no period; output should include the keywords only without prompt in one line. No plural form, like prerequisites should be prerequisite. If there is course code like CSCI070, must keep it.''"

text \<open>
  The \<open>while True\<close> loop of \<open>extract_keywords\<close>. It may run forever, so it takes
  fuel: \<open>None\<close> is "has not returned within that many rounds".
\<close>

fun extract_keywords_loop ::
  "nat \<Rightarrow> env \<Rightarrow> world \<Rightarrow> string \<Rightarrow> string \<Rightarrow> string \<Rightarrow> string outcome" where
  "extract_keywords_loop 0 env w key text model = None"
| "extract_keywords_loop (Suc n) env w key text model =
     (let listing = py_split space key
      in if length listing < 10 then Some (Inr key, logging (Info_get_keywords key) w)
         else (case run_llm env w keywords_system (''Text: '' @ text) model None of
                 (Inl e, w') \<Rightarrow> Some (Inl e, w')
               | (Inr key', w') \<Rightarrow> extract_keywords_loop n env w' key' text model))"

definition extract_keywords ::
  "nat \<Rightarrow> env \<Rightarrow> world \<Rightarrow> string \<Rightarrow> string \<Rightarrow> int option \<Rightarrow> string outcome" where
  "extract_keywords fuel env w text model seed =
     (case run_llm env w keywords_system (''Text: '' @ text) model seed of
        (Inl e, w') \<Rightarrow> Some (Inl e, w')
      | (Inr key, w') \<Rightarrow>
          if seed \<noteq> None then Some (Inr key, w')
          else extract_keywords_loop fuel env w' key text model)"

section \<open>The store: find\_articles\<close>

text \<open>The dict of one result row: the columns of the \<open>SELECT\<close>.\<close>

record hit =
  rowid :: nat
  hit_title :: string
  hit_content :: string
  hit_summary :: string
  relevance_score :: real

text \<open>
  The \<open>SELECT\<close> of \<open>find_articles\<close> once the index has accepted the query: the
  matching rows with their score, \<open>ORDER BY relevance_score ASC\<close>, \<open>LIMIT ?\<close>
  (a negative limit is no limit in SQLite). Rows of equal score are left in \<open>rowid\<close>
  order.
\<close>

definition select_articles :: "env \<Rightarrow> article list \<Rightarrow> string \<Rightarrow> int \<Rightarrow> hit list" where
  "select_articles env rows query limit =
     (let matching = filter (\<lambda>(i, a). fts5_match env query a) (enumerate 0 rows);
          scored = map (\<lambda>(i, a). \<lparr>rowid = Suc i, hit_title = title a, hit_content = content a,
                                  hit_summary = summary a,
                                  relevance_score = bm25 env rows query a\<rparr>) matching;
          ordered = sort_key relevance_score scored
      in if limit < 0 then ordered else take (nat limit) ordered)"

text \<open>
  The retry loop of \<open>find_articles\<close>: \<open>cursor.execute\<close> raises \<open>OperationalError\<close>
  when the index rejects the query; the handler replaces the query when
  \<open>keywords_text\<close> is given and tries again. An exception raised inside the handler
  (by \<open>extract_keywords\<close>) is not caught. \<open>timebias_alpha\<close> is a parameter of the
  method.
\<close>

fun find_articles_loop ::
  "nat \<Rightarrow> env \<Rightarrow> world \<Rightarrow> string \<Rightarrow> int \<Rightarrow> string option \<Rightarrow> string \<Rightarrow> hit list outcome" where
  "find_articles_loop 0 env w query limit keywords_text model = None"
| "find_articles_loop (Suc n) env w query limit keywords_text model =
     (if fts5_accepts env query then Some (Inr (select_articles env (db w) query limit), w)
      else (case keywords_text of
              None \<Rightarrow> find_articles_loop n env w query limit keywords_text model
            | Some kt \<Rightarrow>
                (case extract_keywords n env w kt model None of
                   None \<Rightarrow> None
                 | Some (Inl e, w') \<Rightarrow> Some (Inl e, w')
                 | Some (Inr query', w') \<Rightarrow>
                     find_articles_loop n env w' query' limit keywords_text model)))"

definition find_articles ::
  "nat \<Rightarrow> env \<Rightarrow> world \<Rightarrow> string \<Rightarrow> int \<Rightarrow> real \<Rightarrow> string option \<Rightarrow> string \<Rightarrow> hit list outcome" where
  "find_articles fuel env w query limit timebias_alpha keywords_text model =
     find_articles_loop fuel env (logging Debug_sql w) query limit keywords_text model"

text \<open>
  The retries of \<open>find_articles\<close> as a relation between the state and query at the
  \<open>try\<close> and the state and query at a later \<open>try\<close> of the same call: each step is
  one pass through the handler, taken when the index rejects the current query and
  \<open>extract_keywords\<close> (given \<open>m\<close> rounds) returns the next one. It is used to say
  which query a call ends with.
\<close>

inductive retries ::
  "env \<Rightarrow> string \<Rightarrow> string \<Rightarrow> nat \<Rightarrow> world \<Rightarrow> string \<Rightarrow> world \<Rightarrow> string \<Rightarrow> bool"
  for env kt model m where
  retries_none: "retries env kt model m w q w q"
| retries_again:
    "\<not> fts5_accepts env q \<Longrightarrow>
     extract_keywords m env w kt model None = Some (Inr q1, w1) \<Longrightarrow>
     retries env kt model m w1 q1 w' q' \<Longrightarrow>
     retries env kt model m w q w' q'"

code_pred retries .

text \<open>
  The ranking that the docstring of \<open>find_articles\<close> describes ("the FTS5 rank *
  timebias\_alpha / (days since article publication + timebias\_alpha)"), written
  from those words to compare the code with.
\<close>

definition documented_rank :: "real \<Rightarrow> real \<Rightarrow> real \<Rightarrow> real" where
  "documented_rank relevance timebias_alpha days_since_publication =
     relevance * timebias_alpha / (days_since_publication + timebias_alpha)"

section \<open>The crawler: add\_url\<close>

text \<open>Python's \<open>sub in s\<close> on strings.\<close>

fun in_str :: "string \<Rightarrow> string \<Rightarrow> bool" where
  "in_str sub [] = (sub = [])"
| "in_str sub (c # cs) = (take (length sub) (c # cs) = sub \<or> in_str sub cs)"

text \<open>
  The host that a URL names (the text between \<open>://\<close> and the next \<open>/\<close>) and the
  membership of a host in a domain (the host is the domain or ends with a dot and the
  domain). They are written from the words "outside the allowed domain" of the
  specification, to compare the gate of \<open>add_url\<close> with; the source has no such
  function.
\<close>

fun after_scheme :: "string \<Rightarrow> string" where
  "after_scheme (a # b # c # rest) =
     (if [a, b, c] = ''://'' then rest else after_scheme (b # c # rest))"
| "after_scheme cs = []"

definition url_host :: "string \<Rightarrow> string" where
  "url_host u = takeWhile (\<lambda>c. c \<noteq> CHR ''/'') (after_scheme u)"

definition host_in_domain :: "string \<Rightarrow> string \<Rightarrow> bool" where
  "host_in_domain d h \<longleftrightarrow> h = d \<or> drop (length h - Suc (length d)) h = CHR ''.'' # d"

text \<open>
  \<open>fetch_page_data\<close>: the request and the parsing are the web's; the call is recorded.
\<close>

definition fetch_page_data :: "env \<Rightarrow> world \<Rightarrow> string \<Rightarrow> (exn + page_data option) \<times> world" where
  "fetch_page_data env w u =
     ((case web env (clock w) u of Inl msg \<Rightarrow> Inl (FetchError msg) | Inr r \<Rightarrow> Inr r),
      w\<lparr>clock := Suc (clock w), fetched := fetched w @ [u]\<rparr>)"

text \<open>The SQL statements of \<open>add_url\<close> and \<open>__len__\<close>.\<close>

definition count_url :: "article list \<Rightarrow> string \<Rightarrow> nat" where
  "count_url rows u = length (filter (\<lambda>r. url r = u) rows)"

definition select_depth :: "article list \<Rightarrow> string \<Rightarrow> int option" where
  "select_depth rows u = map_option depth (find (\<lambda>r. url r = u) rows)"

fun first_index :: "('a \<Rightarrow> bool) \<Rightarrow> 'a list \<Rightarrow> nat option" where
  "first_index P [] = None"
| "first_index P (x # xs) = (if P x then Some 0 else map_option Suc (first_index P xs))"

definition select_rowid :: "article list \<Rightarrow> string \<Rightarrow> nat option" where
  "select_rowid rows u = map_option Suc (first_index (\<lambda>r. url r = u) rows)"

definition update_depth :: "article list \<Rightarrow> nat \<Rightarrow> int \<Rightarrow> article list" where
  "update_depth rows rid d =
     (if 0 < rid \<and> rid \<le> length rows
      then rows[rid - 1 := (rows ! (rid - 1))\<lparr>depth := d\<rparr>] else rows)"

definition insert_article :: "article list \<Rightarrow> article \<Rightarrow> article list" where
  "insert_article rows a = rows @ [a]"

text \<open>Every row of the model has a content, so \<open>content IS NOT NULL\<close> keeps them all.\<close>

definition len_db :: "world \<Rightarrow> nat" where
  "len_db w = length (filter (\<lambda>r. True) (db w))"

text \<open>
  \<open>for link in links: self.add_url(link, model, recursive_depth - 1)\<close>, where
  \<open>visit\<close> is the (decorated) method; an exception of a visit would end the loop.
\<close>

fun for_links ::
  "(world \<Rightarrow> string \<Rightarrow> unit outcome) \<Rightarrow> world \<Rightarrow> string list \<Rightarrow> unit outcome" where
  "for_links visit w [] = Some (Inr (), w)"
| "for_links visit w (link # links) =
     (case visit w link of
        None \<Rightarrow> None
      | Some (Inl e, w') \<Rightarrow> Some (Inl e, w')
      | Some (Inr u, w') \<Rightarrow> for_links visit w' links)"

text \<open>
  The body of \<open>add_url\<close> before decoration. \<open>self_add_url\<close> is the method that the
  body calls on the links, that is, the decorated one.
\<close>

definition add_url_func ::
  "(world \<Rightarrow> string \<Rightarrow> string \<Rightarrow> int \<Rightarrow> bool \<Rightarrow> unit outcome) \<Rightarrow>
   env \<Rightarrow> world \<Rightarrow> string \<Rightarrow> string \<Rightarrow> int \<Rightarrow> bool \<Rightarrow> unit outcome" where
  "add_url_func self_add_url env w u model recursive_depth allow_dupes =
     (if \<not> in_str ''hmc.edu'' u then Some (Inr (), logging (Info_outside_url u) w)
      else if \<not> allow_dupes \<and> count_url (db w) u > 0 then
        (let w1 = logging (Info_duplicate recursive_depth u) w
         in case select_depth (db w1) u of
              None \<Rightarrow> Some (Inl TypeError, w1)
            | Some d \<Rightarrow>
                if recursive_depth > d then
                  (case fetch_page_data env w1 u of
                     (Inl e, w2) \<Rightarrow> Some (Inl e, w2)
                   | (Inr None, w2) \<Rightarrow> Some (Inr (), w2)
                   | (Inr (Some data), w2) \<Rightarrow>
                       (case for_links (\<lambda>w' link. self_add_url w' link model (recursive_depth - 1) False)
                               w2 (pd_links data) of
                          None \<Rightarrow> None
                        | Some (Inl e, w3) \<Rightarrow> Some (Inl e, w3)
                        | Some (Inr x, w3) \<Rightarrow>
                            (case select_rowid (db w3) u of
                               None \<Rightarrow> Some (Inl TypeError, w3)
                             | Some rid \<Rightarrow>
                                 Some (Inr (), w3\<lparr>db := update_depth (db w3) rid recursive_depth\<rparr>))))
                else Some (Inr (), w1))
      else
        (case fetch_page_data env w u of
           (Inl e, w1) \<Rightarrow> Some (Inl e, w1)
         | (Inr None, w1) \<Rightarrow> Some (Inr (), w1)
         | (Inr (Some data), w1) \<Rightarrow>
             (let w2 = logging (Info_inserting recursive_depth u) w1
              in if length (pd_content data) > 30000 then
                   (let w3 = logging (Info_too_long u) w2
                    in if recursive_depth > 0
                       then for_links (\<lambda>w' link. self_add_url w' link model (recursive_depth - 1) False)
                              w3 (pd_links data)
                       else Some (Inr (), w3))
                 else
                   (case summarize_text env w2 (pd_content data) model None of
                      (Inl e, w3) \<Rightarrow>
                        (let w4 = logging (Info_fail_summarize u) w3
                         in if recursive_depth > 0
                            then for_links (\<lambda>w' link. self_add_url w' link model (recursive_depth - 1) False)
                                   w4 (pd_links data)
                            else Some (Inr (), w4))
                    | (Inr summ, w3) \<Rightarrow>
                        (let row = \<lparr>title = pd_title data, content = pd_content data, url = u,
                                    publish_date = pd_publish_date data,
                                    crawl_date = pd_crawl_date data, summary = summ,
                                    depth = recursive_depth\<rparr>;
                             w4 = logging Info_inserting_success
                                    (w3\<lparr>db := insert_article (db w3) row\<rparr>)
                         in if recursive_depth > 0
                            then for_links (\<lambda>w' link. self_add_url w' link model (recursive_depth - 1) False)
                                   w4 (pd_links data)
                            else Some (Inr (), w4))))))"

text \<open>
  The decorator \<open>_catch_errors\<close>, applied to the outcome of the call it wraps:
  \<open>except Exception\<close> logs the error, and the wrapper returns nothing either way.
\<close>

definition catch_errors :: "unit outcome \<Rightarrow> unit outcome" where
  "catch_errors r =
     (case r of
        None \<Rightarrow> None
      | Some (Inl e, w) \<Rightarrow> Some (Inr (), logging (Error_caught e) w)
      | Some (Inr u, w) \<Rightarrow> Some (Inr (), w))"

text \<open>
  \<open>add_url\<close> as the class has it, \<open>@_catch_errors\<close> around the body. The fuel
  bounds the depth of the recursion through the links.
\<close>

primrec add_url ::
  "nat \<Rightarrow> env \<Rightarrow> world \<Rightarrow> string \<Rightarrow> string \<Rightarrow> int \<Rightarrow> bool \<Rightarrow> unit outcome" where
  "add_url 0 env w u model recursive_depth allow_dupes = None"
| "add_url (Suc n) env w u model recursive_depth allow_dupes =
     catch_errors (add_url_func (add_url n env) env w u model recursive_depth allow_dupes)"

text \<open>A sequence of calls of \<open>add_url\<close> by a client, each on the state the last one left.\<close>

fun add_urls :: "nat \<Rightarrow> env \<Rightarrow> world \<Rightarrow> (string \<times> string \<times> int \<times> bool) list \<Rightarrow> world option" where
  "add_urls n env w [] = Some w"
| "add_urls n env w ((u, model, recursive_depth, allow_dupes) # calls) =
     (case add_url n env w u model recursive_depth allow_dupes of
        None \<Rightarrow> None
      | Some (r, w') \<Rightarrow> add_urls n env w' calls)"

section \<open>Concrete environments\<close>

text \<open>
  A generation service whose first answer has ten space-separated tokens and whose later
  answers have two, and the empty store.
\<close>

definition verbose_then_short :: env where
  "verbose_then_short =
     \<lparr>groq = (\<lambda>t system user model seed.
                if t = 0 then Inr ''a b c d e f g h i j'' else Inr ''course prerequisite''),
      web = (\<lambda>t u. Inr None),
      fts5_accepts = (\<lambda>q. True),
      fts5_match = (\<lambda>q a. True),
      bm25 = (\<lambda>rows q a. 0)\<rparr>"

definition empty_world :: world where
  "empty_world = \<lparr>db = [], clock = 0, fetched = [], logged = []\<rparr>"

text \<open>
  A store of two articles on the same subject, one published in 2015 and one a few days
  before the search, with an index that scores the old one slightly better (lower);
  a generation service that is down, and one whose first answer is a query that the
  index rejects too and whose later answers are \<open>biology\<close>.
\<close>

definition old_article :: article where
  "old_article = \<lparr>title = ''Biology Major'', content = ''biology program of 2015'',
     url = ''https://www.hmc.edu/old'', publish_date = ''2015-01-05'',
     crawl_date = ''2026-11-01 10:00:00'', summary = ''old program'', depth = 0\<rparr>"

definition recent_article :: article where
  "recent_article = \<lparr>title = ''Biology Major'', content = ''biology program of 2026'',
     url = ''https://www.hmc.edu/new'', publish_date = ''2026-10-30'',
     crawl_date = ''2026-11-01 10:00:05'', summary = ''new program'', depth = 0\<rparr>"

definition two_articles :: world where
  "two_articles = \<lparr>db = [old_article, recent_article], clock = 0, fetched = [], logged = []\<rparr>"

definition ranking_env :: env where
  "ranking_env =
     \<lparr>groq = (\<lambda>t system user model seed. Inl ''connection error''),
      web = (\<lambda>t u. Inr None),
      fts5_accepts = (\<lambda>q. q = ''biology''),
      fts5_match = (\<lambda>q a. True),
      bm25 = (\<lambda>rows q a. if a = old_article then - 11 / 10 else - 1)\<rparr>"

definition second_try_env :: env where
  "second_try_env =
     ranking_env\<lparr>groq := (\<lambda>t system user model seed.
                            if t = 0 then Inr ''biology OR'' else Inr ''biology'')\<rparr>"

text \<open>A store that holds one page, stored with depth 1.\<close>

definition one_page :: world where
  "one_page = \<lparr>db = [old_article\<lparr>depth := 1\<rparr>], clock = 0, fetched = [], logged = []\<rparr>"

section \<open>What a crawl may change\<close>

text \<open>
  The relation that every call of \<open>add_url\<close> with recursion budget \<open>b\<close> keeps between
  the state before and the state after. The log grows by a suffix \<open>ls\<close>. A row that
  was in the table is the same page afterwards (\<open>same_page\<close>: every column but
  \<open>depth\<close>), and its depth is unchanged or strictly larger, at most \<open>b\<close>, and equal
  to the budget of a duplicate visit to its URL recorded in \<open>ls\<close>. A row that was
  added has depth at most \<open>b\<close> and a content of at most 30000 characters.
\<close>

definition same_page :: "article \<Rightarrow> article \<Rightarrow> bool" where
  "same_page x y \<longleftrightarrow> y\<lparr>depth := depth x\<rparr> = x"

definition row_step :: "int \<Rightarrow> log_entry list \<Rightarrow> article \<Rightarrow> article \<Rightarrow> bool" where
  "row_step b ls x y \<longleftrightarrow>
     same_page x y \<and>
     (depth y = depth x \<or>
      (depth x < depth y \<and> depth y \<le> b \<and> Info_duplicate (depth y) (url x) \<in> set ls))"

definition new_row :: "int \<Rightarrow> article \<Rightarrow> bool" where
  "new_row b y \<longleftrightarrow> depth y \<le> b \<and> length (content y) \<le> 30000"

definition grows :: "int \<Rightarrow> world \<Rightarrow> world \<Rightarrow> bool" where
  "grows b w w' \<longleftrightarrow>
     (\<exists>ls. logged w' = logged w @ ls \<and>
        length (db w) \<le> length (db w') \<and>
        (\<forall>i<length (db w). row_step b ls (db w ! i) (db w' ! i)) \<and>
        (\<forall>i. length (db w) \<le> i \<and> i < length (db w') \<longrightarrow> new_row b (db w' ! i)))"

text \<open>
  The depth of the recursion is bounded by the budget and the smallest stored depth:
  \<open>min_depth\<close> is that depth, or 0 if every stored depth is positive, and
  \<open>floor_depth m\<close> says that no stored depth is below \<open>m\<close>.
\<close>

fun min_depth :: "article list \<Rightarrow> int" where
  "min_depth [] = 0"
| "min_depth (r # rs) = min (depth r) (min_depth rs)"

definition floor_depth :: "int \<Rightarrow> world \<Rightarrow> bool" where
  "floor_depth m w \<longleftrightarrow> (\<forall>r\<in>set (db w). m \<le> depth r)"

text \<open>
  Pages and environments for concrete crawls: a short page that links to itself and to
  another college; a web that serves it, with a generation service that answers
  (\<open>crawl_env\<close>) or is down (\<open>failing_env\<close>); a web whose fetch raises
  (\<open>broken_env\<close>); and a page whose content has exactly \<open>n\<close> characters.
\<close>

definition campus_page :: page_data where
  "campus_page = \<lparr>pd_title = ''Biology Major'', pd_publish_date = ''Unknown'',
     pd_crawl_date = ''2026-11-01 10:00:00'', pd_content = ''biology program'',
     pd_links = [''https://www.hmc.edu/old'', ''https://www.pomona.edu/''],
     pd_url = ''https://www.hmc.edu/old''\<rparr>"

definition crawl_env :: env where
  "crawl_env = ranking_env\<lparr>groq := (\<lambda>t system user model seed. Inr ''a summary''),
                           web := (\<lambda>t u. Inr (Some campus_page))\<rparr>"

definition failing_env :: env where
  "failing_env = ranking_env\<lparr>web := (\<lambda>t u. Inr (Some campus_page))\<rparr>"

definition broken_env :: env where
  "broken_env = ranking_env\<lparr>web := (\<lambda>t u. Inl ''Invalid IPv6 URL'')\<rparr>"

definition sized_page :: "nat \<Rightarrow> page_data" where
  "sized_page n = \<lparr>pd_title = ''Catalog'', pd_publish_date = ''Unknown'',
     pd_crawl_date = ''2026-11-01 10:00:00'', pd_content = replicate n (CHR ''a''),
     pd_links = [''https://www.pomona.edu/''],
     pd_url = ''https://www.hmc.edu/catalog''\<rparr>"

definition sized_env :: "nat \<Rightarrow> env" where
  "sized_env n = ranking_env\<lparr>groq := (\<lambda>t system user model seed. Inr ''a summary''),
                             web := (\<lambda>t u. Inr (Some (sized_page n)))\<rparr>"

text \<open>
  A page of another college whose address ends with \<open>hmc.edu\<close>, and a web that
  serves it.
\<close>

definition partner_page :: page_data where
  "partner_page = \<lparr>pd_title = ''Partner colleges'', pd_publish_date = ''Unknown'',
     pd_crawl_date = ''2026-11-01 10:00:00'', pd_content = ''Pomona College partners'',
     pd_links = [], pd_url = ''https://www.pomona.edu/partners/hmc.edu''\<rparr>"

definition partner_env :: env where
  "partner_env = ranking_env\<lparr>groq := (\<lambda>t system user model seed. Inr ''a summary''),
                             web := (\<lambda>t u. Inr (Some partner_page))\<rparr>"

section \<open>Properties of splitting and joining\<close>

lemma push_char_not_Nil: "push_char c pieces \<noteq> []"
  by (cases pieces) auto

lemma py_split_not_Nil: "py_split sep s \<noteq> []"
  by (induction s) (auto simp: push_char_not_Nil)

lemma py_join_Cons: "xs \<noteq> [] \<Longrightarrow> py_join sep (x # xs) = x @ sep # py_join sep xs"
  by (cases xs) auto

lemma py_join_py_split: "py_join sep (py_split sep s) = s"
proof (induction s)
  case Nil
  show ?case by simp
next
  case (Cons c cs)
  obtain l ls where sp: "py_split sep cs = l # ls"
    using py_split_not_Nil [of sep cs] by (cases "py_split sep cs") auto
  show ?case
  proof (cases "c = sep")
    case True
    with Cons show ?thesis by (simp add: py_join_Cons py_split_not_Nil)
  next
    case False
    with Cons sp show ?thesis by (cases ls) auto
  qed
qed

lemma py_join_append:
  "xs \<noteq> [] \<Longrightarrow> ys \<noteq> [] \<Longrightarrow>
   py_join sep (xs @ ys) = py_join sep xs @ sep # py_join sep ys"
proof (induction xs)
  case Nil
  then show ?case by simp
next
  case (Cons x xs)
  show ?case
  proof (cases "xs = []")
    case True
    with Cons.prems show ?thesis by (simp add: py_join_Cons)
  next
    case False
    with Cons show ?thesis by (simp add: py_join_Cons)
  qed
qed

lemma py_join_last_extend:
  assumes "xs \<noteq> []"
  shows "py_join sep (butlast xs @ [last xs @ sep # y]) = py_join sep (xs @ [y])"
proof (cases "butlast xs = []")
  case True
  with assms have "xs = [last xs]"
    by (metis append_butlast_last_id append_Nil)
  then have "py_join sep (xs @ [y]) = last xs @ sep # y"
    by (metis append_Cons append_Nil py_join.simps(2,3))
  then show ?thesis using True by simp
next
  case False
  have "py_join sep (butlast xs @ [last xs @ sep # y])
        = py_join sep (butlast xs) @ sep # last xs @ sep # y"
    using False by (simp add: py_join_append)
  also have "\<dots> = py_join sep (butlast xs @ [last xs]) @ sep # y"
    using False by (simp add: py_join_append)
  also have "\<dots> = py_join sep (xs @ [y])"
    using assms by (simp add: py_join_append)
  finally show ?thesis .
qed

lemma text_split_loop_join:
  "tempList \<noteq> [] \<Longrightarrow>
   py_join newline (text_split_loop tempList wc ls sizeLimit)
   = py_join newline (tempList @ ls)"
proof (induction ls arbitrary: tempList wc)
  case Nil
  then show ?case by simp
next
  case (Cons l ls)
  show ?case
  proof (cases "real (wc + length l) < sizeLimit")
    case True
    let ?t = "butlast tempList @ [last tempList @ newline # l]"
    have "py_join newline (text_split_loop tempList wc (l # ls) sizeLimit)
          = py_join newline (?t @ ls)"
      using True Cons.IH [of ?t] by simp
    also have "\<dots> = py_join newline ((tempList @ [l]) @ ls)"
    proof (cases "ls = []")
      case True
      then show ?thesis using Cons.prems by (simp add: py_join_last_extend)
    next
      case False
      have "py_join newline (?t @ ls) = py_join newline ?t @ newline # py_join newline ls"
        using False by (intro py_join_append) simp_all
      also have "\<dots> = py_join newline (tempList @ [l]) @ newline # py_join newline ls"
        using py_join_last_extend [OF Cons.prems, of newline l] by simp
      also have "\<dots> = py_join newline ((tempList @ [l]) @ ls)"
        using False by (intro py_join_append [symmetric]) simp_all
      finally show ?thesis .
    qed
    finally show ?thesis by simp
  next
    case False
    then show ?thesis using Cons.IH [of "tempList @ [l]"] by simp
  qed
qed

text \<open>
  C10. Joining the chunks of \<open>text_split(text, sizeLimit)\<close> with a single newline
  gives back exactly the original text, for every text and every size limit: the split
  loses nothing, duplicates nothing and keeps the order of the lines.
\<close>

theorem text_split_join: "py_join newline (text_split text sizeLimit) = text"
proof -
  obtain l ls where sp: "py_split newline text = l # ls"
    using py_split_not_Nil [of newline "text"] by (cases "py_split newline text") auto
  have "py_join newline (text_split text sizeLimit) = py_join newline ([l] @ ls)"
    unfolding text_split_def Let_def sp by (simp add: text_split_loop_join del: py_join.simps)
  also have "\<dots> = text"
    using py_join_py_split [of newline "text"] sp by simp
  finally show ?thesis .
qed

section \<open>The chunks of text\_split\<close>

lemma text_split_loop_pack:
  "text_split_loop (done @ [cur]) wc ls L = done @ pack_lines cur wc ls L"
proof (induction ls arbitrary: "done" cur wc)
  case Nil
  show ?case by simp
next
  case (Cons l ls)
  show ?case
    using Cons [of "done" "cur @ newline # l" "wc + length l"]
          Cons [of "done @ [cur]" l "length l"]
    by simp
qed

lemma py_split_no_sep: "sep \<notin> set s \<Longrightarrow> py_split sep s = [s]"
  by (induction s) auto

lemma py_split_lines_no_sep: "l \<in> set (py_split sep s) \<Longrightarrow> sep \<notin> set l"
proof (induction s arbitrary: l)
  case Nil
  then show ?case by simp
next
  case (Cons c cs)
  obtain x xs where sp: "py_split sep cs = x # xs"
    using py_split_not_Nil [of sep cs] by (cases "py_split sep cs") auto
  show ?case
  proof (cases "c = sep")
    case True
    with Cons show ?thesis by auto
  next
    case False
    with Cons.prems sp have "l = c # x \<or> l \<in> set xs" by simp
    then show ?thesis
      using Cons.IH [of x] Cons.IH [of l] sp False by auto
  qed
qed

lemma py_split_append_sep:
  "py_split sep (xs @ sep # ys) = py_split sep xs @ py_split sep ys"
proof (induction xs)
  case Nil
  show ?case by simp
next
  case (Cons x xs)
  then show ?case using py_split_not_Nil [of sep xs] 
    by (cases "py_split sep xs") auto
qed

lemma line_chars_no_newline: "newline \<notin> set l \<Longrightarrow> line_chars l = length l"
  by (induction l) (auto simp: line_chars_def)

lemma line_chars_extend:
  "newline \<notin> set l \<Longrightarrow> line_chars (cur @ newline # l) = line_chars cur + length l"
  using line_chars_no_newline [of l] by (simp add: line_chars_def)

lemma pack_lines_hd:
  "\<exists>rest more. pack_lines cur wc ls L = (cur @ rest) # more \<and> (rest = [] \<or> hd rest = newline)"
proof (induction ls arbitrary: cur wc)
  case Nil
  show ?case by simp
next
  case (Cons l ls)
  show ?case
  proof (cases "real (wc + length l) < L")
    case True
    obtain rest more where
      "pack_lines (cur @ newline # l) (wc + length l) ls L = ((cur @ newline # l) @ rest) # more"
      using Cons [of "cur @ newline # l" "wc + length l"] by blast
    then have "pack_lines cur wc (l # ls) L = (cur @ (newline # l @ rest)) # more"
      using True by simp
    then show ?thesis by (metis list.sel(1))
  next
    case False
    then show ?thesis by simp
  qed
qed

lemma first_line_prefix:
  "newline \<notin> set l \<Longrightarrow> rest = [] \<or> hd rest = newline \<Longrightarrow>
   hd (py_split newline (l @ rest)) = l"
proof (cases rest)
  case Nil
  assume "newline \<notin> set l"
  then show ?thesis using Nil by (simp add: py_split_no_sep)
next
  case (Cons r rs)
  assume "newline \<notin> set l" "rest = [] \<or> hd rest = newline"
  then show ?thesis using Cons by (simp add: py_split_append_sep py_split_no_sep)
qed

lemma pack_lines_props:
  assumes "\<forall>l\<in>set ls. newline \<notin> set l"
    and "wc = line_chars cur"
    and "real (line_chars cur) < L \<or> newline \<notin> set cur"
  shows "concat (map (py_split newline) (pack_lines cur wc ls L)) = py_split newline cur @ ls
    \<and> (\<forall>c\<in>set (pack_lines cur wc ls L). real (line_chars c) < L \<or> newline \<notin> set c)
    \<and> successively (\<lambda>c d. L \<le> real (line_chars c + length (hd (py_split newline d))))
          (pack_lines cur wc ls L)"
  using assms
proof (induction ls arbitrary: cur wc)
  case Nil
  then show ?case by simp
next
  case (Cons l ls)
  have nl: "newline \<notin> set l" using Cons.prems(1) by simp
  have rest: "\<forall>l\<in>set ls. newline \<notin> set l" using Cons.prems(1) by simp
  show ?case
  proof (cases "real (wc + length l) < L")
    case True
    have wc': "wc + length l = line_chars (cur @ newline # l)"
      using Cons.prems(2) nl by (simp add: line_chars_extend)
    have fits: "real (line_chars (cur @ newline # l)) < L \<or> newline \<notin> set (cur @ newline # l)"
      using True wc' by simp
    have sp: "py_split newline (cur @ newline # l) = py_split newline cur @ [l]"
      using nl by (simp add: py_split_append_sep py_split_no_sep)
    show ?thesis
      using Cons.IH [OF rest wc' fits] True sp by simp
  next
    case False
    have wc': "length l = line_chars l" using nl by (simp add: line_chars_no_newline)
    have fits: "real (line_chars l) < L \<or> newline \<notin> set l" using nl by simp
    note IH = Cons.IH [OF rest wc' fits]
    obtain r more where hd: "pack_lines l (length l) ls L = (l @ r) # more"
      and r: "r = [] \<or> hd r = newline"
      using pack_lines_hd [of l "length l" ls L] by blast
    have first: "hd (py_split newline (l @ r)) = l"
      using first_line_prefix [OF nl r] .
    have bound: "L \<le> real (line_chars cur + length l)"
      using False Cons.prems(2) by simp
    have "successively (\<lambda>c d. L \<le> real (line_chars c + length (hd (py_split newline d))))
            (cur # pack_lines l (length l) ls L)"
      using IH hd first bound by (simp add: successively_Cons)
    then show ?thesis
      using IH False Cons.prems(3) nl by (simp add: py_split_no_sep)
  qed
qed



lemma line_chars_sum: "line_chars c = sum_list (map length (py_split newline c))"
proof (induction c)
  case Nil
  show ?case by (simp add: line_chars_def)
next
  case (Cons x xs)
  obtain l ls where sp: "py_split newline xs = l # ls"
    using py_split_not_Nil [of newline xs] by (cases "py_split newline xs") auto
  show ?case using Cons sp by (simp add: line_chars_def)
qed

lemma line_le_line_chars: "l \<in> set (py_split newline c) \<Longrightarrow> length l \<le> line_chars c"
  unfolding line_chars_sum by (simp add: member_le_sum_list)

lemma text_split_pack:
  "text_split text sizeLimit =
   pack_lines (hd (py_split newline text)) (length (hd (py_split newline text)))
     (tl (py_split newline text)) sizeLimit"
  using text_split_loop_pack [of "[]"] by (simp add: text_split_def Let_def)

text \<open>
  What the chunks of \<open>text_split\<close> do satisfy. They are made of whole lines of the
  text, in order; a chunk of several lines has fewer than \<open>sizeLimit\<close> characters when
  the newlines that join its lines are not counted, which is the count \<open>wordCounter\<close>
  keeps; a new chunk starts only where the lines of the chunk before it and the next
  line together reach \<open>sizeLimit\<close>; and a line of \<open>sizeLimit\<close> characters or more
  is a chunk of its own.
\<close>


lemma text_split_chunks:
  "concat (map (py_split newline) (text_split text sizeLimit)) = py_split newline text
   \<and> (\<forall>c\<in>set (text_split text sizeLimit). real (line_chars c) < sizeLimit \<or> newline \<notin> set c)
   \<and> successively (\<lambda>c d. sizeLimit \<le> real (line_chars c + length (hd (py_split newline d))))
        (text_split text sizeLimit)
   \<and> (\<forall>c\<in>set (text_split text sizeLimit). \<forall>l\<in>set (py_split newline c).
         sizeLimit \<le> real (length l) \<longrightarrow> c = l)"
proof -
  obtain l ls where sp: "py_split newline text = l # ls"
    using py_split_not_Nil [of newline "text"] by (cases "py_split newline text") auto
  have nl: "newline \<notin> set l" and rest: "\<forall>x\<in>set ls. newline \<notin> set x"
    using py_split_lines_no_sep [of _ newline "text"] sp by auto
  have ts: "text_split text sizeLimit = pack_lines l (length l) ls sizeLimit"
    using sp by (simp add: text_split_pack)
  have wc: "length l = line_chars l" using nl by (simp add: line_chars_no_newline)
  have fits: "real (line_chars l) < sizeLimit \<or> newline \<notin> set l" using nl by simp
  note P = pack_lines_props [OF rest wc fits]
  have a: "concat (map (py_split newline) (text_split text sizeLimit)) = py_split newline text"
    using P ts sp nl by (simp add: py_split_no_sep)
  have b: "\<forall>c\<in>set (text_split text sizeLimit). real (line_chars c) < sizeLimit \<or> newline \<notin> set c"
    using P ts by simp
  have c: "successively (\<lambda>c d. sizeLimit \<le> real (line_chars c + length (hd (py_split newline d))))
        (text_split text sizeLimit)"
    using P ts by simp
  have d: "\<forall>c\<in>set (text_split text sizeLimit). \<forall>l\<in>set (py_split newline c).
         sizeLimit \<le> real (length l) \<longrightarrow> c = l"
  proof (intro ballI impI)
    fix c x
    assume c: "c \<in> set (text_split text sizeLimit)" and x: "x \<in> set (py_split newline c)"
      and big: "sizeLimit \<le> real (length x)"
    have "length x \<le> line_chars c" using x by (rule line_le_line_chars)
    then have "\<not> real (line_chars c) < sizeLimit" using big by simp
    then have "newline \<notin> set c" using b c by blast
    then show "c = x" using x by (simp add: py_split_no_sep)
  qed
  show ?thesis using a b c d by blast
qed

lemma text_split_chunks_doc_example:
  "text_split doc_example 7 = [''AAB'' @ [newline] @ ''DGF'', ''KBW'']
   \<and> real (line_chars (''AAB'' @ [newline] @ ''DGF'')) < 7
   \<and> (7::real) \<le> real (line_chars (''AAB'' @ [newline] @ ''DGF'') + length (hd (py_split newline ''KBW'')))"
  using text_split_chunks [of doc_example 7]
  by (simp add: text_split_def doc_example_def newline_def line_chars_def)

text \<open>
  C6 at a concrete text. The three lines of \<open>doc3\<close> have 6 characters together, so
  for \<open>sizeLimit = 7\<close> they are packed into one chunk, and that chunk has 8
  characters: \<open>wordCounter\<close> adds the length of each line but not the newline that
  \<open>tempList[-1] += "\n" + textList[i]\<close> puts before it. The docstring promises
  paragraphs within \<open>sizeLimit\<close>. In the same way six empty lines after an empty
  first line count for nothing and stay one chunk of 6 characters for \<open>sizeLimit = 3\<close>.
\<close>

theorem text_split_chunk_over_limit:
  "text_split doc3 7 = [doc3] \<and> length doc3 = 8 \<and> \<not> real (length doc3) < 7
   \<and> text_split [newline, newline, newline, newline, newline, newline] 3
     = [[newline, newline, newline, newline, newline, newline]]"
  by (simp add: text_split_def doc3_def newline_def)



section \<open>The keyword extractor\<close>

lemma extract_keywords_loop_returns:
  assumes "extract_keywords_loop n env w key0 text model = Some (Inr key, w')"
  shows "length (py_split space key) < 10 \<and>
         ((clock w' = clock w \<and> key = key0) \<or>
          (\<exists>k. clock w' = clock w + Suc k \<and> 10 \<le> length (py_split space key0) \<and>
             groq env (clock w + k) keywords_system (''Text: '' @ text) model None = Inr key \<and>
             (\<forall>j<k. \<exists>kj. groq env (clock w + j) keywords_system (''Text: '' @ text) model None = Inr kj
                     \<and> 10 \<le> length (py_split space kj))))"
  using assms
proof (induction n arbitrary: w key0)
  case 0
  then show ?case by simp
next
  case (Suc n)
  show ?case
  proof (cases "length (py_split space key0) < 10")
    case True
    with Suc.prems have "key0 = key" "logging (Info_get_keywords key0) w = w'"
      by (auto simp: Let_def)
    then show ?thesis using True by (auto simp: logging_def)
  next
    case False
    let ?reply = "\<lambda>t. groq env t keywords_system (''Text: '' @ text) model None"
    let ?w1 = "w\<lparr>clock := Suc (clock w)\<rparr>"
    from Suc.prems False obtain key1 where
      r: "?reply (clock w) = Inr key1"
      and rec: "extract_keywords_loop n env ?w1 key1 text model = Some (Inr key, w')"
      by (auto simp: Let_def run_llm_def split: sum.splits)
    have big0: "10 \<le> length (py_split space key0)" using False by simp
    note IH = Suc.IH [OF rec]
    then have len: "length (py_split space key) < 10" by simp
    from IH consider
      (now) "clock w' = Suc (clock w)" "key = key1"
      | (later) k where "clock w' = Suc (clock w) + Suc k" "10 \<le> length (py_split space key1)"
          "?reply (Suc (clock w) + k) = Inr key"
          "\<forall>j<k. \<exists>kj. ?reply (Suc (clock w) + j) = Inr kj \<and> 10 \<le> length (py_split space kj)"
      by auto
    then have "\<exists>k. clock w' = clock w + Suc k \<and> ?reply (clock w + k) = Inr key \<and>
             (\<forall>j<k. \<exists>kj. ?reply (clock w + j) = Inr kj \<and> 10 \<le> length (py_split space kj))"
    proof cases
      case now
      then show ?thesis using r by (intro exI [of _ 0]) simp
    next
      case (later k)
      have "\<forall>j<Suc k. \<exists>kj. ?reply (clock w + j) = Inr kj \<and> 10 \<le> length (py_split space kj)"
      proof (intro allI impI)
        fix j assume j: "j < Suc k"
        show "\<exists>kj. ?reply (clock w + j) = Inr kj \<and> 10 \<le> length (py_split space kj)"
        proof (cases j)
          case 0
          then show ?thesis using r later(2) by simp
        next
          case (Suc j')
          then have "j' < k" using j by simp
          then show ?thesis using later(4) Suc by simp
        qed
      qed
      then show ?thesis using later(1,3) by (intro exI [of _ "Suc k"]) simp
    qed
    then show ?thesis using len big0 by blast
  qed
qed

text \<open>
  C7. A call of \<open>extract_keywords\<close> without a seed that returns a keyword string
  returns one with fewer than 10 space-separated tokens: it is the first answer of the
  generation service with fewer than 10 tokens, every answer before it had 10 or more
  and was asked again. With a seed, the first answer (or the failure of the service) is
  what the call returns, whatever its length.
\<close>

theorem extract_keywords_ceiling:
  "(extract_keywords fuel env w text model None = Some (Inr key, w') \<longrightarrow>
      length (py_split space key) < 10 \<and>
      (\<exists>k. clock w' = clock w + Suc k \<and>
         groq env (clock w + k) keywords_system (''Text: '' @ text) model None = Inr key \<and>
         (\<forall>j<k. \<exists>kj. groq env (clock w + j) keywords_system (''Text: '' @ text) model None = Inr kj
                  \<and> 10 \<le> length (py_split space kj))))
   \<and> extract_keywords fuel env w text model (Some s)
       = Some (run_llm env w keywords_system (''Text: '' @ text) model (Some s))"
proof (intro conjI impI)
  assume ret: "extract_keywords fuel env w text model None = Some (Inr key, w')"
  let ?reply = "\<lambda>t. groq env t keywords_system (''Text: '' @ text) model None"
  let ?w1 = "w\<lparr>clock := Suc (clock w)\<rparr>"
  from ret obtain key0 where r: "?reply (clock w) = Inr key0"
    and loop: "extract_keywords_loop fuel env ?w1 key0 text model = Some (Inr key, w')"
    by (auto simp: extract_keywords_def run_llm_def split: sum.splits)
  note L = extract_keywords_loop_returns [OF loop]
  then show "length (py_split space key) < 10" by simp
  from L consider
    (now) "clock w' = Suc (clock w)" "key = key0"
    | (later) k where "clock w' = Suc (clock w) + Suc k" "10 \<le> length (py_split space key0)"
        "?reply (Suc (clock w) + k) = Inr key"
        "\<forall>j<k. \<exists>kj. ?reply (Suc (clock w) + j) = Inr kj \<and> 10 \<le> length (py_split space kj)"
    by auto
  then show "\<exists>k. clock w' = clock w + Suc k \<and> ?reply (clock w + k) = Inr key \<and>
         (\<forall>j<k. \<exists>kj. ?reply (clock w + j) = Inr kj \<and> 10 \<le> length (py_split space kj))"
  proof cases
    case now
    then show ?thesis using r by (intro exI [of _ 0]) simp
  next
    case (later k)
    have "\<forall>j<Suc k. \<exists>kj. ?reply (clock w + j) = Inr kj \<and> 10 \<le> length (py_split space kj)"
    proof (intro allI impI)
      fix j assume j: "j < Suc k"
      show "\<exists>kj. ?reply (clock w + j) = Inr kj \<and> 10 \<le> length (py_split space kj)"
      proof (cases j)
        case 0
        then show ?thesis using r later(2) by simp
      next
        case (Suc j')
        then have "j' < k" using j by simp
        then show ?thesis using later(4) Suc by simp
      qed
    qed
    then show ?thesis using later(1,3) by (intro exI [of _ "Suc k"]) simp
  qed
next
  show "extract_keywords fuel env w text model (Some s)
       = Some (run_llm env w keywords_system (''Text: '' @ text) model (Some s))"
    by (simp add: extract_keywords_def run_llm_def split: sum.splits)
qed

lemma verbose_run:
  "extract_keywords 2 verbose_then_short empty_world ''What are the prerequisites?'' ''llama'' None
   = Some (Inr ''course prerequisite'',
           \<lparr>db = [], clock = 2, fetched = [], logged = [Info_get_keywords ''course prerequisite'']\<rparr>)"
  by (simp add: extract_keywords_def run_llm_def verbose_then_short_def empty_world_def
        space_def logging_def numeral_2_eq_2)


theorem extract_keywords_ceiling_witness:
  "extract_keywords 2 verbose_then_short empty_world ''What are the prerequisites?'' ''llama'' None
   = Some (Inr ''course prerequisite'',
           \<lparr>db = [], clock = 2, fetched = [], logged = [Info_get_keywords ''course prerequisite'']\<rparr>)
   \<and> length (py_split space ''course prerequisite'') < 10
   \<and> extract_keywords 2 verbose_then_short empty_world ''What are the prerequisites?'' ''llama'' (Some 0)
     = Some (Inr ''a b c d e f g h i j'', \<lparr>db = [], clock = 1, fetched = [], logged = []\<rparr>)
   \<and> length (py_split space ''a b c d e f g h i j'') = 10"
  using extract_keywords_ceiling [of 2 verbose_then_short empty_world
      "''What are the prerequisites?''" "''llama''" "''course prerequisite''"
      "\<lparr>db = [], clock = 2, fetched = [], logged = [Info_get_keywords ''course prerequisite'']\<rparr>" 0]
    verbose_run
  by (simp add: run_llm_def verbose_then_short_def empty_world_def space_def)

section \<open>Searching the store\<close>

lemma articles_differ: "old_article \<noteq> recent_article"
  by (simp add: old_article_def recent_article_def)

text \<open>
  C1 at a concrete store. Both articles match; the old one scores \<open>-1.1\<close>, the
  recent one \<open>-1.0\<close>. \<open>find_articles\<close> returns the old article first, for
  \<open>timebias_alpha = 1\<close> as for any other value, although the documented rank
  \<open>relevance * alpha / (days + alpha)\<close> of the recent article (2 days old) is the lower
  one (the old article is 4318 days old).
\<close>

theorem find_articles_lexical_order_only:
  "find_articles 1 ranking_env two_articles ''biology'' 5 1 None ''llama''
   = Some (Inr [\<lparr>rowid = 1, hit_title = ''Biology Major'', hit_content = ''biology program of 2015'',
                   hit_summary = ''old program'', relevance_score = - 11 / 10\<rparr>,
                 \<lparr>rowid = 2, hit_title = ''Biology Major'', hit_content = ''biology program of 2026'',
                   hit_summary = ''new program'', relevance_score = - 1\<rparr>],
           logging Debug_sql two_articles)
   \<and> documented_rank (- 1) 1 2 < documented_rank (- 11 / 10) 1 4318
   \<and> find_articles 1 ranking_env two_articles ''biology'' 5 (1 / 1000) None ''llama''
     = find_articles 1 ranking_env two_articles ''biology'' 5 1 None ''llama''"
  using articles_differ
  by (simp add: find_articles_def select_articles_def ranking_env_def two_articles_def
        logging_def documented_rank_def enumerate_eq_zip old_article_def recent_article_def)


lemma run_llm_effect:
  "run_llm env w system user model seed = (r, w') \<Longrightarrow>
   db w' = db w \<and> (\<forall>e. r = Inl e \<longrightarrow> (\<exists>msg. e = GroqError msg))"
  by (auto simp: run_llm_def split: sum.splits)

lemma extract_keywords_loop_effect:
  "extract_keywords_loop n env w key text model = Some (r, w') \<Longrightarrow>
   db w' = db w \<and> (\<forall>e. r = Inl e \<longrightarrow> (\<exists>msg. e = GroqError msg))"
proof (induction n arbitrary: w key)
  case 0
  then show ?case by simp
next
  case (Suc n)
  show ?case
  proof (cases "length (py_split space key) < 10")
    case True
    with Suc.prems show ?thesis by (auto simp: logging_def)
  next
    case False
    obtain r1 w1 where r1: "run_llm env w keywords_system (''Text: '' @ text) model None = (r1, w1)"
      by (cases "run_llm env w keywords_system (''Text: '' @ text) model None")
    note eff = run_llm_effect [OF r1]
    show ?thesis
    proof (cases r1)
      case (Inl e)
      with Suc.prems False r1 eff show ?thesis by auto
    next
      case (Inr key')
      with Suc.prems False r1 have "extract_keywords_loop n env w1 key' text model = Some (r, w')"
        by simp
      from Suc.IH [OF this] eff show ?thesis by simp
    qed
  qed
qed

lemma extract_keywords_effect:
  assumes "extract_keywords n env w text model seed = Some (r, w')"
  shows "db w' = db w \<and> (\<forall>e. r = Inl e \<longrightarrow> (\<exists>msg. e = GroqError msg))"
proof -
  obtain r1 w1 where r1: "run_llm env w keywords_system (''Text: '' @ text) model seed = (r1, w1)"
    by (cases "run_llm env w keywords_system (''Text: '' @ text) model seed")
  note eff = run_llm_effect [OF r1]
  show ?thesis
  proof (cases r1)
    case (Inl e)
    with assms r1 eff show ?thesis by (auto simp: extract_keywords_def)
  next
    case (Inr key)
    show ?thesis
    proof (cases "seed = None")
      case True
      with assms r1 Inr have "extract_keywords_loop n env w1 key text model = Some (r, w')"
        by (simp add: extract_keywords_def)
      from extract_keywords_loop_effect [OF this] eff show ?thesis by simp
    next
      case False
      with assms r1 Inr eff show ?thesis by (auto simp: extract_keywords_def)
    qed
  qed
qed

lemma find_articles_loop_returns:
  assumes "find_articles_loop fuel env w query limit keywords_text model = Some (r, w')"
  shows "db w' = db w \<and>
     (\<forall>e. r = Inl e \<longrightarrow>
        (\<exists>msg. e = GroqError msg) \<and> keywords_text \<noteq> None \<and> \<not> fts5_accepts env query) \<and>
     (\<forall>hits. r = Inr hits \<longrightarrow>
        (\<exists>q. fts5_accepts env q \<and> hits = select_articles env (db w) q limit \<and>
           (q = query \<or>
            (\<not> fts5_accepts env query \<and>
             (\<exists>kt n w1 w2. keywords_text = Some kt \<and>
                extract_keywords n env w1 kt model None = Some (Inr q, w2))))))"
  using assms
proof (induction fuel arbitrary: w query)
  case 0
  then show ?case by simp
next
  case (Suc n)
  show ?case
  proof (cases "fts5_accepts env query")
    case True
    with Suc.prems show ?thesis by auto
  next
    case False
    show ?thesis
    proof (cases keywords_text)
      case None
      with Suc.prems False
      have "find_articles_loop n env w query limit keywords_text model = Some (r, w')" by simp
      from Suc.IH [OF this] show ?thesis .
    next
      case (Some kt)
      with Suc.prems False obtain r1 w1 where
        ek: "extract_keywords n env w kt model None = Some (r1, w1)"
        by (auto split: option.splits)
      note eff = extract_keywords_effect [OF ek]
      show ?thesis
      proof (cases r1)
        case (Inl e)
        with Suc.prems False Some ek eff show ?thesis by auto
      next
        case (Inr query')
        with Suc.prems False Some ek
        have rec: "find_articles_loop n env w1 query' limit keywords_text model = Some (r, w')"
          by simp
        note IH = Suc.IH [OF rec]
        have a: "db w' = db w" using IH eff by simp
        have b: "\<forall>e. r = Inl e \<longrightarrow>
            (\<exists>msg. e = GroqError msg) \<and> keywords_text \<noteq> None \<and> \<not> fts5_accepts env query"
          using IH False by simp
        have c: "\<forall>hits. r = Inr hits \<longrightarrow>
          (\<exists>q. fts5_accepts env q \<and> hits = select_articles env (db w) q limit \<and>
           (q = query \<or>
            (\<not> fts5_accepts env query \<and>
             (\<exists>kt n w1 w2. keywords_text = Some kt \<and>
                extract_keywords n env w1 kt model None = Some (Inr q, w2)))))"
        proof (intro allI impI)
          fix hits assume "r = Inr hits"
          with IH obtain q where q: "fts5_accepts env q"
            "hits = select_articles env (db w1) q limit"
            "q = query' \<or> (\<exists>kt n w1 w2. keywords_text = Some kt \<and>
                extract_keywords n env w1 kt model None = Some (Inr q, w2))"
            by blast
          have "\<exists>kt n w1 w2. keywords_text = Some kt \<and>
                extract_keywords n env w1 kt model None = Some (Inr q, w2)"
            using q(3) ek Inr Some by blast
          then show "\<exists>q. fts5_accepts env q \<and> hits = select_articles env (db w) q limit \<and>
           (q = query \<or>
            (\<not> fts5_accepts env query \<and>
             (\<exists>kt n w1 w2. keywords_text = Some kt \<and>
                extract_keywords n env w1 kt model None = Some (Inr q, w2))))"
            using q(1,2) eff False by auto
        qed
        show ?thesis using a b c by blast
      qed
    qed
  qed
qed

lemma find_articles_without_recovery_text:
  "\<not> fts5_accepts env query \<Longrightarrow>
   find_articles_loop fuel env w query limit None model = None"
  by (induction fuel) auto

lemma extract_keywords_loop_mono:
  "extract_keywords_loop n env w key text model = Some x \<Longrightarrow>
   extract_keywords_loop (n + k) env w key text model = Some x"
proof (induction n arbitrary: w key)
  case 0
  then show ?case by simp
next
  case (Suc n)
  show ?case
  proof (cases "length (py_split space key) < 10")
    case True
    with Suc.prems show ?thesis by simp
  next
    case False
    obtain r1 w1 where r1: "run_llm env w keywords_system (''Text: '' @ text) model None = (r1, w1)"
      by (cases "run_llm env w keywords_system (''Text: '' @ text) model None")
    show ?thesis
    proof (cases r1)
      case (Inl e)
      with Suc.prems False r1 show ?thesis by auto
    next
      case (Inr key')
      with Suc.prems False r1 have "extract_keywords_loop n env w1 key' text model = Some x"
        by simp
      from Suc.IH [OF this] False r1 Inr show ?thesis by simp
    qed
  qed
qed

lemma extract_keywords_mono:
  assumes "extract_keywords n env w text model seed = Some x"
  shows "extract_keywords (n + k) env w text model seed = Some x"
proof -
  obtain r1 w1 where r1: "run_llm env w keywords_system (''Text: '' @ text) model seed = (r1, w1)"
    by (cases "run_llm env w keywords_system (''Text: '' @ text) model seed")
  show ?thesis
  proof (cases r1)
    case (Inl e)
    with assms r1 show ?thesis by (auto simp: extract_keywords_def)
  next
    case (Inr key)
    show ?thesis
    proof (cases "seed = None")
      case True
      with assms r1 Inr have "extract_keywords_loop n env w1 key text model = Some x"
        by (simp add: extract_keywords_def)
      from extract_keywords_loop_mono [OF this] r1 Inr True show ?thesis
        by (simp add: extract_keywords_def)
    next
      case False
      with assms r1 Inr show ?thesis by (auto simp: extract_keywords_def)
    qed
  qed
qed

lemma extract_keywords_le:
  "extract_keywords m env w text model seed = Some x \<Longrightarrow> m \<le> n \<Longrightarrow>
   extract_keywords n env w text model seed = Some x"
  using extract_keywords_mono [of m env w "text" model seed x "n - m"] by simp

lemma retries_db: "retries env kt model m w q w' q' \<Longrightarrow> db w' = db w"
proof (induction rule: retries.induct)
  case (retries_none w q)
  show ?case by simp
next
  case (retries_again q w q1 w1 w' q')
  from extract_keywords_effect [OF retries_again(2)] retries_again(4) show ?case by simp
qed

lemma retries_le:
  "retries env kt model m w q w' q' \<Longrightarrow> m \<le> m' \<Longrightarrow> retries env kt model m' w q w' q'"
proof (induction rule: retries.induct)
  case (retries_none w q)
  show ?case by (rule retries.retries_none)
next
  case (retries_again q w q1 w1 w' q')
  from retries_again(1) extract_keywords_le [OF retries_again(2) retries_again(5)]
    retries_again(4) [OF retries_again(5)]
  show ?case by (rule retries.retries_again)
qed

lemma find_articles_loop_accepted:
  assumes "retries env kt model m w q w' q'" and "fts5_accepts env q'"
  shows "\<exists>N. \<forall>n\<ge>N. find_articles_loop n env w q limit (Some kt) model
                     = Some (Inr (select_articles env (db w') q' limit), w')"
  using assms
proof (induction rule: retries.induct)
  case (retries_none w q)
  have "\<forall>n\<ge>Suc 0. find_articles_loop n env w q limit (Some kt) model
                     = Some (Inr (select_articles env (db w) q limit), w)"
  proof (intro allI impI)
    fix n :: nat assume "Suc 0 \<le> n"
    then obtain n' where "n = Suc n'" by (cases n) auto
    with retries_none show "find_articles_loop n env w q limit (Some kt) model
                     = Some (Inr (select_articles env (db w) q limit), w)" by simp
  qed
  then show ?case by blast
next
  case (retries_again q w q1 w1 w' q')
  from retries_again(4) [OF retries_again(5)] obtain N1 where
    N1: "\<forall>n\<ge>N1. find_articles_loop n env w1 q1 limit (Some kt) model
                     = Some (Inr (select_articles env (db w') q' limit), w')" by blast
  have "\<forall>n\<ge>Suc (max m N1). find_articles_loop n env w q limit (Some kt) model
                     = Some (Inr (select_articles env (db w') q' limit), w')"
  proof (intro allI impI)
    fix n :: nat assume n: "Suc (max m N1) \<le> n"
    then obtain n' where n': "n = Suc n'" by (cases n) auto
    with n have "m \<le> n'" "N1 \<le> n'" by simp_all
    from extract_keywords_le [OF retries_again(2) this(1)] N1 \<open>N1 \<le> n'\<close> retries_again(1) n'
    show "find_articles_loop n env w q limit (Some kt) model
                     = Some (Inr (select_articles env (db w') q' limit), w')" by simp
  qed
  then show ?case by blast
qed

lemma find_articles_loop_failed:
  assumes "retries env kt model m w q w1 q1" and "\<not> fts5_accepts env q1"
    and "extract_keywords m env w1 kt model None = Some (Inl e, w2)"
  shows "\<exists>N. \<forall>n\<ge>N. find_articles_loop n env w q limit (Some kt) model = Some (Inl e, w2)"
  using assms
proof (induction rule: retries.induct)
  case (retries_none w q)
  have "\<forall>n\<ge>Suc m. find_articles_loop n env w q limit (Some kt) model = Some (Inl e, w2)"
  proof (intro allI impI)
    fix n :: nat assume n: "Suc m \<le> n"
    then obtain n' where n': "n = Suc n'" by (cases n) auto
    with n have "m \<le> n'" by simp
    from extract_keywords_le [OF retries_none(2) this] retries_none(1) n'
    show "find_articles_loop n env w q limit (Some kt) model = Some (Inl e, w2)" by simp
  qed
  then show ?case by blast
next
  case (retries_again q w q1' w1' w' q')
  from retries_again(4) [OF retries_again(5,6)] obtain N1 where
    N1: "\<forall>n\<ge>N1. find_articles_loop n env w1' q1' limit (Some kt) model = Some (Inl e, w2)"
    by blast
  have "\<forall>n\<ge>Suc (max m N1). find_articles_loop n env w q limit (Some kt) model
          = Some (Inl e, w2)"
  proof (intro allI impI)
    fix n :: nat assume n: "Suc (max m N1) \<le> n"
    then obtain n' where n': "n = Suc n'" by (cases n) auto
    with n have "m \<le> n'" "N1 \<le> n'" by simp_all
    from extract_keywords_le [OF retries_again(2) this(1)] N1 \<open>N1 \<le> n'\<close> retries_again(1) n'
    show "find_articles_loop n env w q limit (Some kt) model = Some (Inl e, w2)" by simp
  qed
  then show ?case by blast
qed

lemma find_articles_loop_trace:
  assumes "find_articles_loop fuel env w q limit (Some kt) model = Some (r, w')"
  shows "\<exists>w1 q1. retries env kt model fuel w q w1 q1 \<and>
           (case r of
              Inr hits \<Rightarrow> fts5_accepts env q1 \<and> w' = w1 \<and>
                          hits = select_articles env (db w) q1 limit
            | Inl e \<Rightarrow> \<not> fts5_accepts env q1 \<and>
                        extract_keywords fuel env w1 kt model None = Some (Inl e, w'))"
  using assms
proof (induction fuel arbitrary: w q)
  case 0
  then show ?case by simp
next
  case (Suc n)
  show ?case
  proof (cases "fts5_accepts env q")
    case True
    with Suc.prems have "r = Inr (select_articles env (db w) q limit)" "w' = w" by auto
    with True retries_none [of env kt model "Suc n" w q] show ?thesis by auto
  next
    case False
    with Suc.prems obtain r1 w1 where
      ek: "extract_keywords n env w kt model None = Some (r1, w1)"
      by (auto split: option.splits)
    have ek': "extract_keywords (Suc n) env w kt model None = Some (r1, w1)"
      using extract_keywords_le [OF ek] by simp
    show ?thesis
    proof (cases r1)
      case (Inl e)
      with Suc.prems False ek have "r = Inl e" "w' = w1" by auto
      with False ek' Inl retries_none [of env kt model "Suc n" w q] show ?thesis by auto
    next
      case (Inr query')
      with Suc.prems False ek
      have rec: "find_articles_loop n env w1 query' limit (Some kt) model = Some (r, w')"
        by simp
      from Suc.IH [OF rec] obtain w2 q2 where
        ch: "retries env kt model n w1 query' w2 q2" and
        res: "(case r of
              Inr hits \<Rightarrow> fts5_accepts env q2 \<and> w' = w2 \<and>
                          hits = select_articles env (db w1) q2 limit
            | Inl e \<Rightarrow> \<not> fts5_accepts env q2 \<and>
                        extract_keywords n env w2 kt model None = Some (Inl e, w'))"
        by blast
      have ch': "retries env kt model (Suc n) w q w2 q2"
        using retries_again [OF False ek' [unfolded Inr] retries_le [OF ch]] by simp
      have "db w1 = db w" using extract_keywords_effect [OF ek] by simp
      with res have "(case r of
              Inr hits \<Rightarrow> fts5_accepts env q2 \<and> w' = w2 \<and>
                          hits = select_articles env (db w) q2 limit
            | Inl e \<Rightarrow> \<not> fts5_accepts env q2 \<and>
                        extract_keywords (Suc n) env w2 kt model None = Some (Inl e, w'))"
        using extract_keywords_le [of n env w2 kt model None _ "Suc n"]
        by (cases r) simp_all
      with ch' show ?thesis by blast
    qed
  qed
qed

text \<open>
  C8, as the code has it. A call of \<open>find_articles\<close> that returns never raises the
  rejection of the index (\<open>OperationalError\<close>) and leaves the table as it was. With
  \<open>keywords_text\<close> given, the call goes on retrying for as long as the index rejects
  the current query and the extraction returns a next one: whenever such a sequence of
  retries reaches a query that the index accepts, the call (given enough fuel) returns
  the rows of that query, and whenever it reaches a rejected query at which the
  extraction raises, the call raises that exception, which is a failure of the
  generation service. Conversely every call that returns has ended in one of these two
  ways.
\<close>

theorem find_articles_recovery:
  "(\<forall>r w'. find_articles fuel env w query limit timebias_alpha keywords_text model = Some (r, w')
       \<longrightarrow> r \<noteq> Inl OperationalError \<and> db w' = db w)
   \<and> (\<forall>m w1 q1. retries env kt model m (logging Debug_sql w) query w1 q1 \<longrightarrow>
         (fts5_accepts env q1 \<longrightarrow>
            (\<exists>N. \<forall>n\<ge>N. find_articles n env w query limit timebias_alpha (Some kt) model
                          = Some (Inr (select_articles env (db w) q1 limit), w1)))
       \<and> (\<forall>e w2. \<not> fts5_accepts env q1 \<and>
                   extract_keywords m env w1 kt model None = Some (Inl e, w2) \<longrightarrow>
            (\<exists>msg. e = GroqError msg) \<and>
            (\<exists>N. \<forall>n\<ge>N. find_articles n env w query limit timebias_alpha (Some kt) model
                          = Some (Inl e, w2))))
   \<and> (\<forall>r w'. find_articles fuel env w query limit timebias_alpha (Some kt) model = Some (r, w')
       \<longrightarrow> (\<exists>w1 q1. retries env kt model fuel (logging Debug_sql w) query w1 q1 \<and>
              (case r of
                 Inr hits \<Rightarrow> fts5_accepts env q1 \<and> w' = w1 \<and>
                             hits = select_articles env (db w) q1 limit
               | Inl e \<Rightarrow> \<not> fts5_accepts env q1 \<and>
                           extract_keywords fuel env w1 kt model None = Some (Inl e, w'))))"
proof (intro conjI allI impI)
  fix r w'
  assume "find_articles fuel env w query limit timebias_alpha keywords_text model = Some (r, w')"
  from find_articles_loop_returns [OF this [unfolded find_articles_def]]
  show "r \<noteq> Inl OperationalError" "db w' = db w" by (auto simp: logging_def)
next
  fix m w1 q1
  assume ch: "retries env kt model m (logging Debug_sql w) query w1 q1"
    and acc: "fts5_accepts env q1"
  have "db w1 = db w" using retries_db [OF ch] by (simp add: logging_def)
  with find_articles_loop_accepted [OF ch acc, where limit = limit]
  show "\<exists>N. \<forall>n\<ge>N. find_articles n env w query limit timebias_alpha (Some kt) model
                          = Some (Inr (select_articles env (db w) q1 limit), w1)"
    by (simp add: find_articles_def)
next
  fix m w1 q1 e w2
  assume ch: "retries env kt model m (logging Debug_sql w) query w1 q1"
    and f: "\<not> fts5_accepts env q1 \<and> extract_keywords m env w1 kt model None = Some (Inl e, w2)"
  from extract_keywords_effect [of m env w1 kt model None "Inl e" w2] f
  show "\<exists>msg. e = GroqError msg" by simp
  from find_articles_loop_failed [OF ch, where e = e and ?w2.0 = w2 and limit = limit] f
  show "\<exists>N. \<forall>n\<ge>N. find_articles n env w query limit timebias_alpha (Some kt) model
                          = Some (Inl e, w2)"
    by (simp add: find_articles_def)
next
  fix r w'
  assume "find_articles fuel env w query limit timebias_alpha (Some kt) model = Some (r, w')"
  from find_articles_loop_trace [OF this [unfolded find_articles_def]]
  have "\<exists>w1 q1. retries env kt model fuel (logging Debug_sql w) query w1 q1 \<and>
              (case r of
                 Inr hits \<Rightarrow> fts5_accepts env q1 \<and> w' = w1 \<and>
                             hits = select_articles env (db (logging Debug_sql w)) q1 limit
               | Inl e \<Rightarrow> \<not> fts5_accepts env q1 \<and>
                           extract_keywords fuel env w1 kt model None = Some (Inl e, w'))" .
  moreover have "db (logging Debug_sql w) = db w" by (simp add: logging_def)
  ultimately
  show "\<exists>w1 q1. retries env kt model fuel (logging Debug_sql w) query w1 q1 \<and>
              (case r of
                 Inr hits \<Rightarrow> fts5_accepts env q1 \<and> w' = w1 \<and>
                             hits = select_articles env (db w) q1 limit
               | Inl e \<Rightarrow> \<not> fts5_accepts env q1 \<and>
                           extract_keywords fuel env w1 kt model None = Some (Inl e, w'))"
    by (cases r) simp_all
qed


text \<open>
  C8 as the specification words it fails: the index rejects the query, the caller gave
  \<open>keywords_text\<close>, the generation service is down, and \<open>find_articles\<close> raises.
\<close>

theorem find_articles_generation_failure:
  "find_articles 2 ranking_env two_articles ''biology AND'' 5 1 (Some ''Which biology courses?'') ''llama''
   = Some (Inl (GroqError ''connection error''),
           \<lparr>db = [old_article, recent_article], clock = 1, fetched = [], logged = [Debug_sql]\<rparr>)"
  by (simp add: find_articles_def ranking_env_def two_articles_def logging_def
        extract_keywords_def run_llm_def numeral_2_eq_2)

lemma second_try_first:
  "extract_keywords 1 second_try_env (logging Debug_sql two_articles) ''Which biology courses?''
     ''llama'' None
   = Some (Inr ''biology OR'',
           \<lparr>db = [old_article, recent_article], clock = 1, fetched = [],
              logged = [Debug_sql, Info_get_keywords ''biology OR'']\<rparr>)"
  by (simp add: second_try_env_def ranking_env_def two_articles_def logging_def
        extract_keywords_def run_llm_def space_def)

lemma second_try_second:
  "extract_keywords 1 second_try_env
     \<lparr>db = [old_article, recent_article], clock = 1, fetched = [],
        logged = [Debug_sql, Info_get_keywords ''biology OR'']\<rparr>
     ''Which biology courses?'' ''llama'' None
   = Some (Inr ''biology'',
           \<lparr>db = [old_article, recent_article], clock = 2, fetched = [],
              logged = [Debug_sql, Info_get_keywords ''biology OR'',
                        Info_get_keywords ''biology'']\<rparr>)"
  by (simp add: second_try_env_def ranking_env_def logging_def
        extract_keywords_def run_llm_def space_def numeral_2_eq_2)

lemma second_try_chain:
  "retries second_try_env ''Which biology courses?'' ''llama'' 1
     (logging Debug_sql two_articles) ''biology AND''
     \<lparr>db = [old_article, recent_article], clock = 2, fetched = [],
        logged = [Debug_sql, Info_get_keywords ''biology OR'', Info_get_keywords ''biology'']\<rparr>
     ''biology''"
proof -
  have a: "\<not> fts5_accepts second_try_env ''biology AND''"
    by (simp add: second_try_env_def ranking_env_def)
  have b: "\<not> fts5_accepts second_try_env ''biology OR''"
    by (simp add: second_try_env_def ranking_env_def)
  show ?thesis
    by (rule retries_again [OF a second_try_first])
       (rule retries_again [OF b second_try_second], rule retries_none)
qed

lemma second_try_run:
  "find_articles 3 second_try_env two_articles ''biology AND'' 1 1
     (Some ''Which biology courses?'') ''llama''
   = Some (Inr [\<lparr>rowid = 1, hit_title = ''Biology Major'', hit_content = ''biology program of 2015'',
                   hit_summary = ''old program'', relevance_score = - 11 / 10\<rparr>],
           \<lparr>db = [old_article, recent_article], clock = 2, fetched = [],
              logged = [Debug_sql, Info_get_keywords ''biology OR'',
                        Info_get_keywords ''biology'']\<rparr>)"
  using articles_differ
  by (simp add: find_articles_def second_try_env_def ranking_env_def two_articles_def logging_def
        extract_keywords_def run_llm_def numeral_3_eq_3 numeral_2_eq_2 select_articles_def
        enumerate_eq_zip space_def old_article_def recent_article_def)

lemma service_down:
  "extract_keywords 0 ranking_env (logging Debug_sql two_articles) ''Which biology courses?''
     ''llama'' None
   = Some (Inl (GroqError ''connection error''),
           \<lparr>db = [old_article, recent_article], clock = 1, fetched = [], logged = [Debug_sql]\<rparr>)"
  by (simp add: ranking_env_def two_articles_def logging_def extract_keywords_def run_llm_def)

theorem find_articles_recovery_witness:
  "find_articles 3 second_try_env two_articles ''biology AND'' 1 1
     (Some ''Which biology courses?'') ''llama''
   = Some (Inr [\<lparr>rowid = 1, hit_title = ''Biology Major'', hit_content = ''biology program of 2015'',
                   hit_summary = ''old program'', relevance_score = - 11 / 10\<rparr>],
           \<lparr>db = [old_article, recent_article], clock = 2, fetched = [],
              logged = [Debug_sql, Info_get_keywords ''biology OR'',
                        Info_get_keywords ''biology'']\<rparr>)
   \<and> retries second_try_env ''Which biology courses?'' ''llama'' 1
        (logging Debug_sql two_articles) ''biology AND''
        \<lparr>db = [old_article, recent_article], clock = 2, fetched = [],
           logged = [Debug_sql, Info_get_keywords ''biology OR'', Info_get_keywords ''biology'']\<rparr>
        ''biology''
   \<and> fts5_accepts second_try_env ''biology''
   \<and> (\<exists>N. \<forall>n\<ge>N. find_articles n second_try_env two_articles ''biology AND'' 1 1
                    (Some ''Which biology courses?'') ''llama''
          = Some (Inr (select_articles second_try_env (db two_articles) ''biology'' 1),
                  \<lparr>db = [old_article, recent_article], clock = 2, fetched = [],
                     logged = [Debug_sql, Info_get_keywords ''biology OR'',
                               Info_get_keywords ''biology'']\<rparr>))
   \<and> \<not> fts5_accepts ranking_env ''biology AND''
   \<and> (\<exists>N. \<forall>n\<ge>N. find_articles n ranking_env two_articles ''biology AND'' 1 1
                    (Some ''Which biology courses?'') ''llama''
          = Some (Inl (GroqError ''connection error''),
                  \<lparr>db = [old_article, recent_article], clock = 1, fetched = [],
                     logged = [Debug_sql]\<rparr>))"
proof -
  have acc: "fts5_accepts second_try_env ''biology''"
    by (simp add: second_try_env_def ranking_env_def)
  have rej: "\<not> fts5_accepts ranking_env ''biology AND''"
    by (simp add: ranking_env_def)
  note up = find_articles_recovery
    [of 3 second_try_env two_articles "''biology AND''" 1 1 "Some ''Which biology courses?''"
        "''llama''" "''Which biology courses?''"]
  note down = find_articles_recovery
    [of 2 ranking_env two_articles "''biology AND''" 1 1 "Some ''Which biology courses?''"
        "''llama''" "''Which biology courses?''"]
  have "\<exists>N. \<forall>n\<ge>N. find_articles n second_try_env two_articles ''biology AND'' 1 1
                    (Some ''Which biology courses?'') ''llama''
          = Some (Inr (select_articles second_try_env (db two_articles) ''biology'' 1),
                  \<lparr>db = [old_article, recent_article], clock = 2, fetched = [],
                     logged = [Debug_sql, Info_get_keywords ''biology OR'',
                               Info_get_keywords ''biology'']\<rparr>)"
    using up second_try_chain acc by blast
  moreover have "\<exists>N. \<forall>n\<ge>N. find_articles n ranking_env two_articles ''biology AND'' 1 1
                    (Some ''Which biology courses?'') ''llama''
          = Some (Inl (GroqError ''connection error''),
                  \<lparr>db = [old_article, recent_article], clock = 1, fetched = [],
                     logged = [Debug_sql]\<rparr>)"
    using down retries_none [of ranking_env "''Which biology courses?''" "''llama''" 0
        "logging Debug_sql two_articles" "''biology AND''"] rej service_down
    by blast
  ultimately show ?thesis using second_try_run second_try_chain acc rej by blast
qed


section \<open>The crawler: gates\<close>

lemma catch_errors_Inr [simp]: "catch_errors (Some (Inr x, w)) = Some (Inr (), w)"
  by (simp add: catch_errors_def)

lemma catch_errors_Inl [simp]:
  "catch_errors (Some (Inl e, w)) = Some (Inr (), logging (Error_caught e) w)"
  by (simp add: catch_errors_def)

lemma catch_errors_None [simp]: "catch_errors None = None"
  by (simp add: catch_errors_def)

lemma logging_fields [simp]:
  "db (logging e w) = db w" "clock (logging e w) = clock w"
  "fetched (logging e w) = fetched w" "logged (logging e w) = logged w @ [e]"
  by (simp_all add: logging_def)

text \<open>
  The gate of \<open>add_url\<close> is a test on the text of the URL. When the URL does not
  contain \<open>hmc.edu\<close>, the call returns without an error for every recursion budget:
  the table is unchanged, no page is fetched, no outside call is made, and the only
  trace is the information message of the skip.
\<close>

lemma add_url_without_substring:
  assumes "\<not> in_str ''hmc.edu'' u"
  shows "\<exists>w'. add_url (Suc n) env w u model recursive_depth allow_dupes = Some (Inr (), w')
           \<and> db w' = db w \<and> fetched w' = fetched w \<and> clock w' = clock w
           \<and> logged w' = logged w @ [Info_outside_url u]"
  using assms by (simp add: add_url_func_def)

lemma add_url_skips_pomona:
  "\<not> in_str ''hmc.edu'' ''https://www.pomona.edu/'' \<and>
   (\<exists>w'. add_url 3 ranking_env two_articles ''https://www.pomona.edu/'' ''llama'' 2 False
            = Some (Inr (), w')
         \<and> db w' = db two_articles \<and> fetched w' = fetched two_articles
         \<and> clock w' = clock two_articles
         \<and> logged w' = logged two_articles @ [Info_outside_url ''https://www.pomona.edu/''])"
proof -
  have h: "\<not> in_str ''hmc.edu'' ''https://www.pomona.edu/''" by simp
  show ?thesis
    using h add_url_without_substring [OF h, of 2 ranking_env two_articles "''llama''" 2 False]
    by (simp add: numeral_3_eq_3)
qed



lemma select_depth_count: "select_depth rows u = Some d \<Longrightarrow> 0 < count_url rows u"
  by (induction rows) (auto simp: select_depth_def count_url_def split: if_splits)

text \<open>
  C4. For a URL that the store already holds, a call of \<open>add_url\<close> without
  \<open>allow_dupes\<close> whose recursion budget is at most the stored depth returns and leaves
  the table as it was: the same number of rows, the same depth for that URL, and nothing
  fetched.
\<close>

theorem add_url_known_url:
  assumes "select_depth (db w) u = Some d" and "recursive_depth \<le> d"
  shows "\<exists>w'. add_url (Suc n) env w u model recursive_depth False = Some (Inr (), w')
           \<and> db w' = db w \<and> len_db w' = len_db w \<and> select_depth (db w') u = Some d
           \<and> fetched w' = fetched w"
proof (cases "in_str ''hmc.edu'' u")
  case False
  then show ?thesis using assms by (simp add: add_url_func_def len_db_def)
next
  case True
  then show ?thesis
    using assms select_depth_count [OF assms(1)]
    by (simp add: add_url_func_def len_db_def Let_def)
qed

theorem add_url_known_url_witness:
  "select_depth (db one_page) ''https://www.hmc.edu/old'' = Some 1 \<and> (0::int) \<le> 1 \<and>
   (\<exists>w'. add_url 1 ranking_env one_page ''https://www.hmc.edu/old'' ''llama'' 0 False = Some (Inr (), w')
      \<and> db w' = db one_page \<and> len_db w' = len_db one_page
      \<and> select_depth (db w') ''https://www.hmc.edu/old'' = Some 1
      \<and> fetched w' = fetched one_page)"
proof -
  have h1: "select_depth (db one_page) ''https://www.hmc.edu/old'' = Some 1"
    by (simp add: one_page_def select_depth_def old_article_def)
  have h2: "(0::int) \<le> 1" by simp
  show ?thesis
    using h1 h2 add_url_known_url [OF h1 h2, of 0 ranking_env "''llama''"] by simp
qed

section \<open>The crawler: what a visit preserves\<close>

lemma same_page_refl [simp]: "same_page x x"
  by (simp add: same_page_def)

lemma same_page_fields:
  "same_page x y \<Longrightarrow> url y = url x \<and> content y = content x"
  unfolding same_page_def by (metis article.select_convs(2,3) article.surjective article.update_convs(7))

lemma same_page_trans: "same_page x y \<Longrightarrow> same_page y z \<Longrightarrow> same_page x z"
  unfolding same_page_def
  by (metis article.update_convs(7) article.surjective article.select_convs(7))

lemma same_page_update: "same_page x y \<Longrightarrow> same_page x (y\<lparr>depth := d\<rparr>)"
  unfolding same_page_def by simp

lemma row_step_refl [simp]: "row_step b ls x x"
  by (simp add: row_step_def)

lemma row_step_trans:
  assumes "row_step b ls1 x y" and "row_step b ls2 y z"
  shows "row_step b (ls1 @ ls2) x z"
proof -
  have u: "url y = url x" using assms(1) by (simp add: row_step_def same_page_fields)
  have s: "same_page x z" using assms by (auto simp: row_step_def intro: same_page_trans)
  show ?thesis using assms s u unfolding row_step_def by auto
qed

lemma row_step_mono:
  "row_step b ls x y \<Longrightarrow> b \<le> b' \<Longrightarrow> set ls \<subseteq> set ls' \<Longrightarrow> row_step b' ls' x y"
  unfolding row_step_def by auto

lemma new_row_step: "new_row b y \<Longrightarrow> row_step b ls y z \<Longrightarrow> new_row b z"
  unfolding new_row_def row_step_def using same_page_fields [of y z] by auto

lemma new_row_mono: "new_row b y \<Longrightarrow> b \<le> b' \<Longrightarrow> new_row b' y"
  unfolding new_row_def by auto

lemma grows_same:
  "db w' = db w \<Longrightarrow> logged w' = logged w @ ls \<Longrightarrow> grows b w w'"
  unfolding grows_def by auto

lemma grows_refl [simp]: "grows b w w"
  by (rule grows_same [of _ _ "[]"]) simp_all

lemma grows_logging [simp]: "grows b w (logging e w)"
  by (rule grows_same [of _ _ "[e]"]) simp_all

lemma grows_mono:
  assumes "grows b w w'" and "b \<le> b'"
  shows "grows b' w w'"
proof -
  from assms(1) obtain ls where ls: "logged w' = logged w @ ls"
    "length (db w) \<le> length (db w')"
    "\<forall>i<length (db w). row_step b ls (db w ! i) (db w' ! i)"
    "\<forall>i. length (db w) \<le> i \<and> i < length (db w') \<longrightarrow> new_row b (db w' ! i)"
    unfolding grows_def by blast
  have "\<forall>i<length (db w). row_step b' ls (db w ! i) (db w' ! i)"
    using ls(3) assms(2) row_step_mono by blast
  moreover have "\<forall>i. length (db w) \<le> i \<and> i < length (db w') \<longrightarrow> new_row b' (db w' ! i)"
    using ls(4) assms(2) new_row_mono by blast
  ultimately show ?thesis using ls(1,2) unfolding grows_def by blast
qed

lemma grows_trans:
  assumes "grows b w w1" and "grows b w1 w2"
  shows "grows b w w2"
proof -
  from assms(1) obtain ls1 where a: "logged w1 = logged w @ ls1"
    "length (db w) \<le> length (db w1)"
    "\<forall>i<length (db w). row_step b ls1 (db w ! i) (db w1 ! i)"
    "\<forall>i. length (db w) \<le> i \<and> i < length (db w1) \<longrightarrow> new_row b (db w1 ! i)"
    unfolding grows_def by blast
  from assms(2) obtain ls2 where c: "logged w2 = logged w1 @ ls2"
    "length (db w1) \<le> length (db w2)"
    "\<forall>i<length (db w1). row_step b ls2 (db w1 ! i) (db w2 ! i)"
    "\<forall>i. length (db w1) \<le> i \<and> i < length (db w2) \<longrightarrow> new_row b (db w2 ! i)"
    unfolding grows_def by blast
  have 1: "logged w2 = logged w @ (ls1 @ ls2)" using a(1) c(1) by simp
  have 2: "length (db w) \<le> length (db w2)" using a(2) c(2) by simp
  have 3: "\<forall>i<length (db w). row_step b (ls1 @ ls2) (db w ! i) (db w2 ! i)"
  proof (intro allI impI)
    fix i assume i: "i < length (db w)"
    then have "row_step b ls1 (db w ! i) (db w1 ! i)" "row_step b ls2 (db w1 ! i) (db w2 ! i)"
      using a(2,3) c(3) by auto
    then show "row_step b (ls1 @ ls2) (db w ! i) (db w2 ! i)" by (rule row_step_trans)
  qed
  have 4: "\<forall>i. length (db w) \<le> i \<and> i < length (db w2) \<longrightarrow> new_row b (db w2 ! i)"
  proof (intro allI impI)
    fix i assume i: "length (db w) \<le> i \<and> i < length (db w2)"
    show "new_row b (db w2 ! i)"
    proof (cases "i < length (db w1)")
      case True
      then have "new_row b (db w1 ! i)" "row_step b ls2 (db w1 ! i) (db w2 ! i)"
        using i a(4) c(3) by auto
      then show ?thesis by (rule new_row_step)
    next
      case False
      then show ?thesis using i c(4) by auto
    qed
  qed
  show ?thesis unfolding grows_def using 1 2 3 4 by blast
qed

lemma grows_insert:
  assumes "depth row \<le> b" and "length (content row) \<le> 30000"
  shows "grows b w (w\<lparr>db := insert_article (db w) row\<rparr>)"
  unfolding grows_def insert_article_def
  using assms by (auto simp: new_row_def nth_append intro!: exI [of _ "[]"])

lemma grows_fetch: "fetch_page_data env w u = (r, w') \<Longrightarrow> grows b w w'"
  by (rule grows_same [of _ _ "[]"]) (auto simp: fetch_page_data_def)

lemma grows_summarize: "summarize_text env w text model seed = (r, w') \<Longrightarrow> grows b w w'"
  by (rule grows_same [of _ _ "[]"]) (auto simp: summarize_text_def run_llm_def)

lemma for_links_grows:
  assumes "\<And>w l r w'. visit w l = Some (r, w') \<Longrightarrow> grows b w w'"
    and "for_links visit w links = Some (r, w')"
  shows "grows b w w'"
  using assms(2)
proof (induction links arbitrary: w)
  case Nil
  then show ?case by simp
next
  case (Cons l links)
  from Cons.prems obtain r1 w1 where v: "visit w l = Some (r1, w1)"
    by (auto split: option.splits)
  note g1 = assms(1) [OF v]
  show ?case
  proof (cases r1)
    case (Inl e)
    with Cons.prems v g1 show ?thesis by simp
  next
    case (Inr x)
    with Cons.prems v have "for_links visit w1 links = Some (r, w')" by simp
    from Cons.IH [OF this] g1 show ?thesis by (blast intro: grows_trans)
  qed
qed


lemma first_index_Some:
  "first_index P xs = Some i \<Longrightarrow> i < length xs \<and> P (xs ! i) \<and> (\<forall>j<i. \<not> P (xs ! j))"
proof (induction xs arbitrary: i)
  case Nil
  then show ?case by simp
next
  case (Cons x xs)
  show ?case
  proof (cases "P x")
    case True
    with Cons.prems show ?thesis by simp
  next
    case False
    with Cons.prems obtain k where k: "first_index P xs = Some k" "i = Suc k" by auto
    from Cons.IH [OF k(1)] False k(2) show ?thesis by (auto simp: less_Suc_eq_0_disj)
  qed
qed

lemma first_index_eqI:
  "i < length xs \<Longrightarrow> P (xs ! i) \<Longrightarrow> \<forall>j<i. \<not> P (xs ! j) \<Longrightarrow> first_index P xs = Some i"
proof (induction xs arbitrary: i)
  case Nil
  then show ?case by simp
next
  case (Cons x xs)
  show ?case
  proof (cases i)
    case 0
    with Cons.prems show ?thesis by simp
  next
    case (Suc k)
    with Cons.prems have "\<not> P x" by auto
    moreover have "first_index P xs = Some k"
      using Cons.prems Suc by (intro Cons.IH) auto
    ultimately show ?thesis using Suc by simp
  qed
qed

lemma select_depth_first:
  "select_depth rows u = map_option (\<lambda>i. depth (rows ! i)) (first_index (\<lambda>r. url r = u) rows)"
  by (induction rows) (auto simp: select_depth_def option.map_comp comp_def)

lemma grows_first_index:
  assumes "grows b w w'" and "first_index (\<lambda>r. url r = u) (db w) = Some i"
  shows "first_index (\<lambda>r. url r = u) (db w') = Some i"
proof -
  from assms(1) obtain ls where g: "length (db w) \<le> length (db w')"
    "\<forall>i<length (db w). row_step b ls (db w ! i) (db w' ! i)"
    unfolding grows_def by blast
  have same: "\<forall>j<length (db w). url (db w' ! j) = url (db w ! j)"
    using g(2) by (simp add: row_step_def same_page_fields)
  note fi = first_index_Some [OF assms(2)]
  show ?thesis
  proof (rule first_index_eqI)
    show "i < length (db w')" using fi g(1) by simp
    show "url (db w' ! i) = u" using fi same by simp
    show "\<forall>j<i. url (db w' ! j) \<noteq> u" using fi same by auto
  qed
qed

lemma grows_upgrade:
  assumes G: "grows (b - 1) (logging (Info_duplicate b u) w) w3"
    and d: "select_depth (db w) u = Some d" "d < b"
    and rid: "select_rowid (db w3) u = Some rid"
  shows "grows b w (w3\<lparr>db := update_depth (db w3) rid b\<rparr>)
         \<and> select_depth (update_depth (db w3) rid b) u = Some b"
proof -
  from G obtain ls where g: "logged w3 = (logged w @ [Info_duplicate b u]) @ ls"
    "length (db w) \<le> length (db w3)"
    "\<forall>i<length (db w). row_step (b - 1) ls (db w ! i) (db w3 ! i)"
    "\<forall>i. length (db w) \<le> i \<and> i < length (db w3) \<longrightarrow> new_row (b - 1) (db w3 ! i)"
    unfolding grows_def by auto
  from d(1) obtain j where j: "first_index (\<lambda>r. url r = u) (db w) = Some j"
    "depth (db w ! j) = d"
    by (auto simp: select_depth_first)
  note fj = first_index_Some [OF j(1)]
  have "first_index (\<lambda>r. url r = u) (db (logging (Info_duplicate b u) w)) = Some j"
    using j(1) by simp
  from grows_first_index [OF G this] have j3: "first_index (\<lambda>r. url r = u) (db w3) = Some j" .
  then have rj: "rid = Suc j" using rid by (simp add: select_rowid_def)
  let ?rows = "(db w3)[j := (db w3 ! j)\<lparr>depth := b\<rparr>]"
  have upd: "update_depth (db w3) rid b = ?rows"
    using rj fj g(2) by (simp add: update_depth_def)
  let ?ls = "Info_duplicate b u # ls"
  have 1: "logged (w3\<lparr>db := ?rows\<rparr>) = logged w @ ?ls" using g(1) by simp
  have 2: "length (db w) \<le> length ?rows" using g(2) by simp
  have 3: "\<forall>i<length (db w). row_step b ?ls (db w ! i) (?rows ! i)"
  proof (intro allI impI)
    fix i assume i: "i < length (db w)"
    then have rs: "row_step (b - 1) ls (db w ! i) (db w3 ! i)" using g(3) by simp
    show "row_step b ?ls (db w ! i) (?rows ! i)"
    proof (cases "i = j")
      case True
      have "same_page (db w ! j) ((db w3 ! j)\<lparr>depth := b\<rparr>)"
        using rs True by (simp add: row_step_def same_page_update)
      then show ?thesis
        using True i g(2) fj j(2) d(2) by (simp add: row_step_def)
    next
      case False
      then have "?rows ! i = db w3 ! i" by simp
      then show ?thesis using rs by (auto intro: row_step_mono)
    qed
  qed
  have 4: "\<forall>i. length (db w) \<le> i \<and> i < length ?rows \<longrightarrow> new_row b (?rows ! i)"
  proof (intro allI impI)
    fix i assume i: "length (db w) \<le> i \<and> i < length ?rows"
    then have "i \<noteq> j" using fj by auto
    then have "?rows ! i = db w3 ! i" by simp
    moreover have "new_row (b - 1) (db w3 ! i)" using i g(4) by simp
    ultimately show "new_row b (?rows ! i)" by (auto intro: new_row_mono)
  qed
  have "grows b w (w3\<lparr>db := ?rows\<rparr>)"
    unfolding grows_def using 1 2 3 4 by (intro exI [of _ ?ls]) simp
  moreover have "select_depth ?rows u = Some b"
  proof -
    note f3 = first_index_Some [OF j3]
    have "first_index (\<lambda>r. url r = u) ?rows = Some j"
    proof (rule first_index_eqI)
      show "j < length ?rows" using f3 by simp
      show "url (?rows ! j) = u" using f3 by simp
      show "\<forall>k<j. url (?rows ! k) \<noteq> u" using f3 by auto
    qed
    then show ?thesis using f3 by (simp add: select_depth_first)
  qed
  ultimately show ?thesis using upd by simp
qed


lemma add_url_func_grows:
  assumes self: "\<And>w l r w'. self w l model (b - 1) False = Some (r, w') \<Longrightarrow> grows (b - 1) w w'"
    and run: "add_url_func self env w u model b a = Some (r, w')"
  shows "grows b w w'"
proof -
  let ?visit = "\<lambda>w' link. self w' link model (b - 1) False"
  have links: "\<And>w0 ls r0 w1. for_links ?visit w0 ls = Some (r0, w1) \<Longrightarrow> grows b w0 w1"
    using for_links_grows [of ?visit "b - 1"] self grows_mono [of "b - 1" _ _ b] by simp
  show ?thesis
  proof (cases "in_str ''hmc.edu'' u")
    case False
    with run have "w' = logging (Info_outside_url u) w" by (simp add: add_url_func_def)
    then show ?thesis by simp
  next
    case dom: True
    show ?thesis
    proof (cases "\<not> a \<and> 0 < count_url (db w) u")
      case dup: True
      let ?w1 = "logging (Info_duplicate b u) w"
      have g1: "grows b w ?w1" by simp
      show ?thesis
      proof (cases "select_depth (db w) u")
        case None
        with run dom dup have "w' = ?w1" by (simp add: add_url_func_def Let_def)
        then show ?thesis by simp
      next
        case (Some d)
        show ?thesis
        proof (cases "d < b")
          case False
          with run dom dup Some have "w' = ?w1" by (simp add: add_url_func_def Let_def)
          then show ?thesis by simp
        next
          case big: True
          obtain r2 w2 where f: "fetch_page_data env ?w1 u = (r2, w2)"
            by (cases "fetch_page_data env ?w1 u")
          have g2: "grows b w w2" using g1 grows_fetch [OF f] by (rule grows_trans)
          show ?thesis
          proof (cases r2)
            case (Inl e)
            with run dom dup Some big f have "w' = w2" by (simp add: add_url_func_def Let_def)
            then show ?thesis using g2 by simp
          next
            case (Inr page)
            show ?thesis
            proof (cases page)
              case None
              with run dom dup Some big f Inr have "w' = w2"
                by (simp add: add_url_func_def Let_def)
              then show ?thesis using g2 by simp
            next
              case (Some data)
              from run dom dup \<open>select_depth (db w) u = Some d\<close> big f Inr Some
              obtain r3 w3 where fl: "for_links ?visit w2 (pd_links data) = Some (r3, w3)"
                by (auto simp: add_url_func_def Let_def split: option.splits)
              have g3: "grows (b - 1) ?w1 w3"
                using grows_fetch [OF f, of "b - 1"] for_links_grows [of ?visit "b - 1", OF self fl]
                by (rule grows_trans)
              show ?thesis
              proof (cases r3)
                case (Inl e)
                with run dom dup \<open>select_depth (db w) u = Some d\<close> big f Inr Some fl
                have "w' = w3" by (simp add: add_url_func_def Let_def)
                then show ?thesis using g2 links [OF fl] by (blast intro: grows_trans)
              next
                case ok: (Inr x)
                show ?thesis
                proof (cases "select_rowid (db w3) u")
                  case None
                  with run dom dup \<open>select_depth (db w) u = Some d\<close> big f Inr Some fl ok
                  have "w' = w3" by (simp add: add_url_func_def Let_def)
                  then show ?thesis using g2 links [OF fl] by (blast intro: grows_trans)
                next
                  case (Some rid)
                  with run dom dup \<open>select_depth (db w) u = Some d\<close> big f Inr
                    \<open>page = Some data\<close> fl ok
                  have "w' = w3\<lparr>db := update_depth (db w3) rid b\<rparr>"
                    by (simp add: add_url_func_def Let_def)
                  then show ?thesis
                    using grows_upgrade [OF g3 \<open>select_depth (db w) u = Some d\<close> big Some] by simp
                qed
              qed
            qed
          qed
        qed
      qed
    next
      case new: False
      obtain r1 w1 where f: "fetch_page_data env w u = (r1, w1)"
        by (cases "fetch_page_data env w u")
      have g1: "grows b w w1" using grows_fetch [OF f] .
      show ?thesis
      proof (cases r1)
        case (Inl e)
        with run dom new f have "w' = w1" by (auto simp: add_url_func_def Let_def)
        then show ?thesis using g1 by simp
      next
        case (Inr page)
        show ?thesis
        proof (cases page)
          case None
          with run dom new f Inr have "w' = w1" by (auto simp: add_url_func_def Let_def)
          then show ?thesis using g1 by simp
        next
          case (Some data)
          let ?w2 = "logging (Info_inserting b u) w1"
          have g2: "grows b w ?w2" using g1 grows_logging by (rule grows_trans)
          show ?thesis
          proof (cases "30000 < length (pd_content data)")
            case long: True
            let ?w3 = "logging (Info_too_long u) ?w2"
            have g3: "grows b w ?w3" using g2 grows_logging by (rule grows_trans)
            show ?thesis
            proof (cases "0 < b")
              case True
              with run dom new f Inr Some long
              have "for_links ?visit ?w3 (pd_links data) = Some (r, w')"
                by (auto simp: add_url_func_def Let_def)
              from g3 links [OF this] show ?thesis by (rule grows_trans)
            next
              case False
              with run dom new f Inr Some long have "w' = ?w3"
                by (auto simp: add_url_func_def Let_def)
              then show ?thesis using g3 by simp
            qed
          next
            case short: False
            obtain r3 w3 where sm: "summarize_text env ?w2 (pd_content data) model None = (r3, w3)"
              by (cases "summarize_text env ?w2 (pd_content data) model None")
            have g3: "grows b w w3" using g2 grows_summarize [OF sm] by (rule grows_trans)
            show ?thesis
            proof (cases r3)
              case (Inl e)
              let ?w4 = "logging (Info_fail_summarize u) w3"
              have g4: "grows b w ?w4" using g3 grows_logging by (rule grows_trans)
              show ?thesis
              proof (cases "0 < b")
                case True
                with run dom new f Inr Some short sm Inl
                have "for_links ?visit ?w4 (pd_links data) = Some (r, w')"
                  by (auto simp: add_url_func_def Let_def)
                from g4 links [OF this] show ?thesis by (rule grows_trans)
              next
                case False
                with run dom new f \<open>r1 = Inr page\<close> Some short sm Inl have "w' = ?w4"
                  by (auto simp: add_url_func_def Let_def)
                then show ?thesis using g4 by simp
              qed
            next
              case (Inr summ)
              let ?row = "\<lparr>title = pd_title data, content = pd_content data, url = u,
                          publish_date = pd_publish_date data,
                          crawl_date = pd_crawl_date data, summary = summ, depth = b\<rparr>"
              let ?w4 = "logging Info_inserting_success (w3\<lparr>db := insert_article (db w3) ?row\<rparr>)"
              have "grows b w3 (w3\<lparr>db := insert_article (db w3) ?row\<rparr>)"
                using short by (intro grows_insert) simp_all
              then have g4: "grows b w ?w4"
                using g3 grows_logging by (blast intro: grows_trans)
              show ?thesis
              proof (cases "0 < b")
                case True
                with run dom new f \<open>r1 = Inr page\<close> Some short sm Inr
                have "for_links ?visit ?w4 (pd_links data) = Some (r, w')"
                  by (auto simp: add_url_func_def Let_def)
                from g4 links [OF this] show ?thesis by (rule grows_trans)
              next
                case False
                with run dom new f \<open>r1 = Inr page\<close> Some short sm Inr have "w' = ?w4"
                  by (auto simp: add_url_func_def Let_def)
                then show ?thesis using g4 by simp
              qed
            qed
          qed
        qed
      qed
    qed
  qed
qed

lemma catch_errors_grows:
  "catch_errors x = Some (r, w') \<Longrightarrow> (\<And>r0 w0. x = Some (r0, w0) \<Longrightarrow> grows b w w0) \<Longrightarrow>
   r = Inr () \<and> grows b w w'"
  unfolding catch_errors_def
  by (auto split: option.splits sum.splits intro: grows_trans [OF _ grows_logging])

lemma add_url_grows:
  "add_url n env w u model b a = Some (r, w') \<Longrightarrow> r = Inr () \<and> grows b w w'"
proof (induction n arbitrary: w u b a r w')
  case 0
  then show ?case by simp
next
  case (Suc n)
  have self: "\<And>w l r w'. add_url n env w l model (b - 1) False = Some (r, w') \<Longrightarrow> grows (b - 1) w w'"
    using Suc.IH by blast
  from Suc.prems
  have c: "catch_errors (add_url_func (add_url n env) env w u model b a) = Some (r, w')" by simp
  show ?case
    by (rule catch_errors_grows [OF c]) (rule add_url_func_grows [OF self], assumption+)
qed

section \<open>The crawler: every visit returns\<close>

lemma min_depth_nonpos: "min_depth rows \<le> 0"
  by (induction rows) auto

lemma min_depth_le: "r \<in> set rows \<Longrightarrow> min_depth rows \<le> depth r"
  by (induction rows) auto

lemma floor_depth_min: "floor_depth (min_depth (db w)) w"
  by (simp add: floor_depth_def min_depth_le)

lemma floor_depth_same: "db w' = db w \<Longrightarrow> floor_depth m w \<Longrightarrow> floor_depth m w'"
  by (simp add: floor_depth_def)

lemma floor_depth_logging [simp]: "floor_depth m (logging e w) = floor_depth m w"
  by (simp add: floor_depth_def)

lemma floor_depth_fetch:
  "fetch_page_data env w u = (r, w') \<Longrightarrow> floor_depth m w \<Longrightarrow> floor_depth m w'"
  by (rule floor_depth_same) (auto simp: fetch_page_data_def)

lemma floor_depth_summarize:
  "summarize_text env w text model seed = (r, w') \<Longrightarrow> floor_depth m w \<Longrightarrow> floor_depth m w'"
  by (rule floor_depth_same) (auto simp: summarize_text_def run_llm_def)

lemma floor_depth_insert:
  "floor_depth m w \<Longrightarrow> m \<le> depth row \<Longrightarrow> floor_depth m (w\<lparr>db := insert_article (db w) row\<rparr>)"
  by (auto simp: floor_depth_def insert_article_def)

lemma floor_depth_update:
  assumes "floor_depth m w" and "m \<le> b"
  shows "floor_depth m (w\<lparr>db := update_depth (db w) rid b\<rparr>)"
proof -
  have "\<And>r. r \<in> set (update_depth (db w) rid b) \<Longrightarrow> m \<le> depth r"
  proof -
    fix r assume r: "r \<in> set (update_depth (db w) rid b)"
    show "m \<le> depth r"
    proof (cases "0 < rid \<and> rid \<le> length (db w)")
      case True
      then have "r \<in> insert ((db w ! (rid - 1))\<lparr>depth := b\<rparr>) (set (db w))"
        using r set_update_subset_insert [of "db w" "rid - 1"] by (auto simp: update_depth_def)
      then show ?thesis using assms by (auto simp: floor_depth_def)
    next
      case False
      then show ?thesis using r assms by (auto simp: update_depth_def floor_depth_def)
    qed
  qed
  then show ?thesis by (simp add: floor_depth_def)
qed

lemma select_depth_member:
  "select_depth rows u = Some d \<Longrightarrow> \<exists>r\<in>set rows. depth r = d"
  by (induction rows) (auto simp: select_depth_def split: if_splits)

lemma for_links_total:
  assumes "\<And>w l. P w \<Longrightarrow> \<exists>w'. visit w l = Some (Inr (), w') \<and> P w'"
    and "P w"
  shows "\<exists>w'. for_links visit w links = Some (Inr (), w') \<and> P w'"
  using assms(2)
proof (induction links arbitrary: w)
  case Nil
  then show ?case by simp
next
  case (Cons l links)
  from assms(1) [OF Cons.prems] obtain w1 where v: "visit w l = Some (Inr (), w1)" "P w1"
    by blast
  from Cons.IH [OF v(2)] v(1) show ?case by simp
qed

lemma for_links_Inr:
  assumes "\<And>w l r w'. visit w l = Some (r, w') \<Longrightarrow> r = Inr ()"
    and "for_links visit w links = Some (r, w')"
  shows "r = Inr ()"
  using assms(2)
proof (induction links arbitrary: w)
  case Nil
  then show ?case by simp
next
  case (Cons l links)
  from Cons.prems obtain r1 w1 where v: "visit w l = Some (r1, w1)"
    by (auto split: option.splits)
  from assms(1) [OF v] have "r1 = Inr ()" .
  with Cons.prems v have "for_links visit w1 links = Some (r, w')" by simp
  from Cons.IH [OF this] show ?case .
qed

lemma catch_errors_for_links:
  "catch_errors (for_links (\<lambda>w' link. add_url n env w' link model b False) w links)
   = for_links (\<lambda>w' link. add_url n env w' link model b False) w links"
proof (cases "for_links (\<lambda>w' link. add_url n env w' link model b False) w links")
  case None
  then show ?thesis by simp
next
  case (Some p)
  obtain r w' where p: "p = (r, w')" by (cases p)
  have "r = Inr ()"
    using for_links_Inr [of "\<lambda>w' link. add_url n env w' link model b False" w links r w']
      add_url_grows Some p by blast
  then show ?thesis using Some p by simp
qed

lemma add_url_func_total:
  assumes self: "m < b \<Longrightarrow> (\<And>w l. floor_depth m w \<Longrightarrow>
            \<exists>w'. self w l model (b - 1) False = Some (Inr (), w') \<and> floor_depth m w')"
    and P: "floor_depth m w" and m: "m \<le> 0"
  shows "\<exists>r w'. add_url_func self env w u model b a = Some (r, w') \<and> (m \<le> b \<longrightarrow> floor_depth m w')"
proof -
  let ?visit = "\<lambda>w' link. self w' link model (b - 1) False"
  have links: "\<And>w0 ls. m < b \<Longrightarrow> floor_depth m w0 \<Longrightarrow>
      \<exists>w1. for_links ?visit w0 ls = Some (Inr (), w1) \<and> floor_depth m w1"
    using for_links_total [of "floor_depth m" ?visit] self by blast
  show ?thesis
  proof (cases "in_str ''hmc.edu'' u")
    case False
    then show ?thesis using P by (simp add: add_url_func_def)
  next
    case dom: True
    show ?thesis
    proof (cases "\<not> a \<and> 0 < count_url (db w) u")
      case dup: True
      let ?w1 = "logging (Info_duplicate b u) w"
      show ?thesis
      proof (cases "select_depth (db w) u")
        case None
        then show ?thesis using dom dup P by (simp add: add_url_func_def Let_def)
      next
        case (Some d)
        show ?thesis
        proof (cases "d < b")
          case False
          then show ?thesis using dom dup Some P by (simp add: add_url_func_def Let_def)
        next
          case big: True
          have mb: "m < b"
            using select_depth_member [OF Some] P big by (auto simp: floor_depth_def)
          obtain r2 w2 where f: "fetch_page_data env ?w1 u = (r2, w2)"
            by (cases "fetch_page_data env ?w1 u")
          have P2: "floor_depth m w2" using floor_depth_fetch [OF f] P by simp
          show ?thesis
          proof (cases r2)
            case (Inl e)
            then show ?thesis using dom dup Some big f P2 by (simp add: add_url_func_def Let_def)
          next
            case (Inr page)
            show ?thesis
            proof (cases page)
              case None
              then show ?thesis
                using dom dup Some big f Inr P2 by (simp add: add_url_func_def Let_def)
            next
              case page: (Some data)
              from links [OF mb P2] obtain w3 where
                fl: "for_links ?visit w2 (pd_links data) = Some (Inr (), w3)" and P3: "floor_depth m w3"
                by blast
              show ?thesis
              proof (cases "select_rowid (db w3) u")
                case None
                then show ?thesis
                  using dom dup Some big f Inr page fl P3 by (simp add: add_url_func_def Let_def)
              next
                case rid: (Some rid)
                have "floor_depth m (w3\<lparr>db := update_depth (db w3) rid b\<rparr>)"
                  using P3 mb by (intro floor_depth_update) simp_all
                then show ?thesis
                  using dom dup Some big f Inr page fl rid by (simp add: add_url_func_def Let_def)
              qed
            qed
          qed
        qed
      qed
    next
      case new: False
      obtain r1 w1 where f: "fetch_page_data env w u = (r1, w1)"
        by (cases "fetch_page_data env w u")
      have P1: "floor_depth m w1" using floor_depth_fetch [OF f] P by simp
      show ?thesis
      proof (cases r1)
        case (Inl e)
        then show ?thesis using dom new f P1 by (auto simp: add_url_func_def Let_def)
      next
        case (Inr page)
        show ?thesis
        proof (cases page)
          case None
          then show ?thesis using dom new f Inr P1 by (auto simp: add_url_func_def Let_def)
        next
          case page: (Some data)
          let ?w2 = "logging (Info_inserting b u) w1"
          show ?thesis
          proof (cases "30000 < length (pd_content data)")
            case long: True
            let ?w3 = "logging (Info_too_long u) ?w2"
            have P3: "floor_depth m ?w3" using P1 by simp
            show ?thesis
            proof (cases "0 < b")
              case True
              then have "m < b" using m by simp
              from links [OF this P3] obtain w4 where
                "for_links ?visit ?w3 (pd_links data) = Some (Inr (), w4)" "floor_depth m w4"
                by blast
              then show ?thesis
                using dom new f Inr page long True by (auto simp: add_url_func_def Let_def)
            next
              case False
              then show ?thesis
                using dom new f Inr page long P3 by (auto simp: add_url_func_def Let_def)
            qed
          next
            case short: False
            obtain r3 w3 where sm: "summarize_text env ?w2 (pd_content data) model None = (r3, w3)"
              by (cases "summarize_text env ?w2 (pd_content data) model None")
            have P3: "floor_depth m w3" using floor_depth_summarize [OF sm] P1 by simp
            show ?thesis
            proof (cases r3)
              case (Inl e)
              let ?w4 = "logging (Info_fail_summarize u) w3"
              have P4: "floor_depth m ?w4" using P3 by simp
              show ?thesis
              proof (cases "0 < b")
                case True
                then have "m < b" using m by simp
                from links [OF this P4] obtain w5 where
                  "for_links ?visit ?w4 (pd_links data) = Some (Inr (), w5)" "floor_depth m w5"
                  by blast
                then show ?thesis
                  using dom new f Inr page short sm Inl True
                  by (auto simp: add_url_func_def Let_def)
              next
                case False
                then show ?thesis
                  using dom new f \<open>r1 = Inr page\<close> page short sm Inl P4
                  by (auto simp: add_url_func_def Let_def)
              qed
            next
              case summ: (Inr summ)
              let ?row = "\<lparr>title = pd_title data, content = pd_content data, url = u,
                          publish_date = pd_publish_date data,
                          crawl_date = pd_crawl_date data, summary = summ, depth = b\<rparr>"
              let ?w4 = "logging Info_inserting_success (w3\<lparr>db := insert_article (db w3) ?row\<rparr>)"
              have P4: "m \<le> b \<Longrightarrow> floor_depth m ?w4"
                using P3 by (simp add: floor_depth_insert)
              show ?thesis
              proof (cases "0 < b")
                case True
                then have mb: "m < b" using m by simp
                then have "floor_depth m ?w4" using P4 by simp
                from links [OF mb this] obtain w5 where
                  "for_links ?visit ?w4 (pd_links data) = Some (Inr (), w5)" "floor_depth m w5"
                  by blast
                then show ?thesis
                  using dom new f Inr page short sm summ True
                  by (auto simp: add_url_func_def Let_def)
              next
                case False
                then show ?thesis
                  using dom new f Inr page short sm summ P4
                  by (auto simp: add_url_func_def Let_def)
              qed
            qed
          qed
        qed
      qed
    qed
  qed
qed

lemma add_url_total:
  "floor_depth m w \<Longrightarrow> m \<le> 0 \<Longrightarrow> b - m < int n \<Longrightarrow> 0 < n \<Longrightarrow>
   \<exists>w'. add_url n env w u model b a = Some (Inr (), w') \<and> (m \<le> b \<longrightarrow> floor_depth m w')"
proof (induction n arbitrary: w u b a)
  case 0
  then show ?case by simp
next
  case (Suc n)
  have self: "m < b \<Longrightarrow> (\<And>w l. floor_depth m w \<Longrightarrow>
            \<exists>w'. add_url n env w l model (b - 1) False = Some (Inr (), w') \<and> floor_depth m w')"
  proof -
    fix w l assume mb: "m < b" and P: "floor_depth m w"
    have "b - 1 - m < int n" "0 < n" using Suc.prems(3) mb by auto
    from Suc.IH [OF P Suc.prems(2) this] mb
    show "\<exists>w'. add_url n env w l model (b - 1) False = Some (Inr (), w') \<and> floor_depth m w'"
      by auto
  qed
  from add_url_func_total [of m b "add_url n env" model w env u a, OF self Suc.prems(1,2)]
  obtain r w' where run: "add_url_func (add_url n env) env w u model b a = Some (r, w')"
    and P': "m \<le> b \<longrightarrow> floor_depth m w'"
    by blast
  show ?case
  proof (cases r)
    case (Inl e)
    with run P' show ?thesis by simp
  next
    case (Inr x)
    with run P' show ?thesis by simp
  qed
qed

section \<open>The crawler: depth, size gate and failures\<close>

lemma grows_select_depth:
  assumes "grows b w w'" and "select_depth (db w) u = Some d"
  shows "\<exists>d' ls. select_depth (db w') u = Some d' \<and> logged w' = logged w @ ls \<and>
           (d' = d \<or> (d < d' \<and> d' \<le> b \<and> Info_duplicate d' u \<in> set ls))"
proof -
  from assms(1) obtain ls where g: "logged w' = logged w @ ls"
    "\<forall>i<length (db w). row_step b ls (db w ! i) (db w' ! i)"
    unfolding grows_def by blast
  from assms(2) obtain j where j: "first_index (\<lambda>r. url r = u) (db w) = Some j"
    "depth (db w ! j) = d"
    by (auto simp: select_depth_first)
  note fj = first_index_Some [OF j(1)]
  have sd: "select_depth (db w') u = Some (depth (db w' ! j))"
    using grows_first_index [OF assms(1) j(1)] by (simp add: select_depth_first)
  have "row_step b ls (db w ! j) (db w' ! j)" using g(2) fj by simp
  then have "depth (db w' ! j) = d \<or>
     (d < depth (db w' ! j) \<and> depth (db w' ! j) \<le> b
      \<and> Info_duplicate (depth (db w' ! j)) u \<in> set ls)"
    using j(2) fj by (auto simp: row_step_def)
  then show ?thesis using sd g(1) by blast
qed

lemma add_urls_depth:
  assumes "add_urls n env w calls = Some w'" and "select_depth (db w) u = Some d"
  shows "\<exists>d' ls. select_depth (db w') u = Some d' \<and> logged w' = logged w @ ls \<and>
           (d' = d \<or> (d < d' \<and> Info_duplicate d' u \<in> set ls))"
  using assms
proof (induction calls arbitrary: w d)
  case Nil
  then show ?case by simp
next
  case (Cons c calls)
  obtain v model b a where c: "c = (v, model, b, a)" by (cases c)
  from Cons.prems(1) c obtain r w1 where
    one: "add_url n env w v model b a = Some (r, w1)" and rest: "add_urls n env w1 calls = Some w'"
    by (auto split: option.splits)
  from add_url_grows [OF one] have "grows b w w1" by simp
  from grows_select_depth [OF this Cons.prems(2)] obtain d1 ls1 where
    s1: "select_depth (db w1) u = Some d1" "logged w1 = logged w @ ls1"
    "d1 = d \<or> (d < d1 \<and> Info_duplicate d1 u \<in> set ls1)"
    by blast
  from Cons.IH [OF rest s1(1)] obtain d2 ls2 where
    s2: "select_depth (db w') u = Some d2" "logged w' = logged w1 @ ls2"
    "d2 = d1 \<or> (d1 < d2 \<and> Info_duplicate d2 u \<in> set ls2)"
    by blast
  have "logged w' = logged w @ (ls1 @ ls2)" using s1(2) s2(2) by simp
  moreover have "d2 = d \<or> (d < d2 \<and> Info_duplicate d2 u \<in> set (ls1 @ ls2))"
    using s1(3) s2(3) by auto
  ultimately show ?case using s2(1) by blast
qed

lemma add_url_upgrade:
  assumes run: "add_url n env w u model b False = Some (r, w')"
    and d: "select_depth (db w) u = Some d"
  shows "if b \<le> d \<or> \<not> in_str ''hmc.edu'' u then db w' = db w
         else (case web env (clock w) u of
                 Inr (Some data) \<Rightarrow> select_depth (db w') u = Some b
               | _ \<Rightarrow> db w' = db w)"
proof -
  obtain k where n: "n = Suc k" using run by (cases n) auto
  let ?visit = "\<lambda>w' link. add_url k env w' link model (b - 1) False"
  let ?w1 = "logging (Info_duplicate b u) w"
  from run n have c: "catch_errors (add_url_func (add_url k env) env w u model b False) = Some (r, w')"
    by simp
  have cnt: "0 < count_url (db w) u" using d by (rule select_depth_count)
  show ?thesis
  proof (cases "in_str ''hmc.edu'' u")
    case False
    with c show ?thesis by (auto simp: add_url_func_def)
  next
    case dom: True
    show ?thesis
    proof (cases "b \<le> d")
      case True
      with c dom cnt d show ?thesis by (auto simp: add_url_func_def Let_def)
    next
      case False
      then have big: "d < b" by simp
      show ?thesis
      proof (cases "web env (clock w) u")
        case (Inl msg)
        with c dom cnt d big show ?thesis
          by (auto simp: add_url_func_def Let_def fetch_page_data_def logging_def)
      next
        case (Inr page)
        show ?thesis
        proof (cases page)
          case None
          with c dom cnt d big Inr show ?thesis
            by (auto simp: add_url_func_def Let_def fetch_page_data_def logging_def)
        next
          case (Some data)
          let ?w2 = "?w1\<lparr>clock := Suc (clock w), fetched := fetched w @ [u]\<rparr>"
          have f: "fetch_page_data env ?w1 u = (Inr (Some data), ?w2)"
            using Inr Some by (simp add: fetch_page_data_def)
          from c dom cnt d big f obtain r3 w3 where
            fl: "for_links ?visit ?w2 (pd_links data) = Some (r3, w3)"
            by (auto simp: add_url_func_def Let_def catch_errors_def split: option.splits)
          have r3: "r3 = Inr ()"
            using for_links_Inr [of ?visit ?w2 "pd_links data" r3 w3] add_url_grows fl by blast
          have g23: "grows (b - 1) ?w2 w3"
            by (rule for_links_grows [where visit = ?visit, OF _ fl]) (use add_url_grows in blast)
          have g3: "grows (b - 1) ?w1 w3"
            using grows_fetch [OF f, of "b - 1"] g23 by (rule grows_trans)
          from d obtain j where j: "first_index (\<lambda>r. url r = u) (db ?w1) = Some j"
            by (auto simp: select_depth_first)
          from grows_first_index [OF g3 j] have rid: "select_rowid (db w3) u = Some (Suc j)"
            by (simp add: select_rowid_def)
          from c dom cnt d big f fl r3 rid
          have "w' = w3\<lparr>db := update_depth (db w3) (Suc j) b\<rparr>"
            by (simp add: add_url_func_def Let_def)
          then have "select_depth (db w') u = Some b"
            using grows_upgrade [OF g3 d big rid] by simp
          then show ?thesis using dom big Inr Some by simp
        qed
      qed
    qed
  qed
qed

text \<open>
  C3. Over any sequence of calls of \<open>add_url\<close>, a URL that has a stored row keeps
  one, and the stored depth that the crawler reads for it (the depth of its first row)
  never decreases; when it has changed, the new value is strictly larger and is the
  recursion budget of a duplicate visit to that URL recorded in the log of those calls.
  For one call on a stored URL without \<open>allow_dupes\<close>: with a budget at most the
  stored depth, or outside the domain, the table is unchanged; with a strictly larger
  budget the depth is set to that budget when the page is fetched, and the table is
  unchanged when the fetch fails.
\<close>

theorem stored_depth_never_decreases:
  "(add_urls n env w calls = Some w' \<and> select_depth (db w) u = Some d \<longrightarrow>
      (\<exists>d' ls. select_depth (db w') u = Some d' \<and> logged w' = logged w @ ls \<and>
         (d' = d \<or> (d < d' \<and> Info_duplicate d' u \<in> set ls))))
   \<and> (add_url n env w u model b False = Some (r, w1) \<and> select_depth (db w) u = Some d \<longrightarrow>
        (if b \<le> d \<or> \<not> in_str ''hmc.edu'' u then db w1 = db w
         else (case web env (clock w) u of
                 Inr (Some data) \<Rightarrow> select_depth (db w1) u = Some b
               | _ \<Rightarrow> db w1 = db w)))"
  using add_urls_depth [of n env w calls w' u d] add_url_upgrade [of n env w u model b r w1 d]
  by blast

lemma new_rows_gate:
  assumes "add_url n env w u model b a = Some (r, w')"
  shows "length (db w) \<le> length (db w') \<and>
     (\<forall>i. length (db w) \<le> i \<and> i < length (db w') \<longrightarrow> length (content (db w' ! i)) \<le> 30000) \<and>
     (\<forall>i<length (db w). content (db w' ! i) = content (db w ! i))"
proof -
  from add_url_grows [OF assms] have "grows b w w'" by simp
  then show ?thesis
    unfolding grows_def new_row_def row_step_def using same_page_fields by blast
qed

lemma fetch_page_data_db: "fetch_page_data env w u = (r, w1) \<Longrightarrow> db w1 = db w"
  by (auto simp: fetch_page_data_def)

lemma summarize_text_db: "summarize_text env w text model seed = (r, w1) \<Longrightarrow> db w1 = db w"
  by (auto simp: summarize_text_def run_llm_def)

text \<open>
  C2, as the code has it. When a visit fetches a page whose content has more than 30000
  characters, the page is neither summarized nor stored: the visit is exactly the loop
  over the links of the page with the budget decremented by 1 when the budget is
  positive, started in a state whose table is the one before the visit, and it ends
  there when the budget is not positive. Over a whole call, rows are only added, every
  added row has a content of at most 30000 characters, and no stored content changes.
\<close>

theorem add_url_size_gate:
  "(in_str ''hmc.edu'' u \<and> (a \<or> count_url (db w) u = 0) \<and>
    fetch_page_data env w u = (Inr (Some data), w1) \<and> 30000 < length (pd_content data) \<longrightarrow>
      add_url (Suc n) env w u model b a =
        (if 0 < b
         then for_links (\<lambda>w' link. add_url n env w' link model (b - 1) False)
                (logging (Info_too_long u) (logging (Info_inserting b u) w1)) (pd_links data)
         else Some (Inr (), logging (Info_too_long u) (logging (Info_inserting b u) w1)))
      \<and> db (logging (Info_too_long u) (logging (Info_inserting b u) w1)) = db w)
   \<and> (add_url n env w u model b a = Some (r, w') \<longrightarrow>
        length (db w) \<le> length (db w') \<and>
        (\<forall>i. length (db w) \<le> i \<and> i < length (db w') \<longrightarrow>
              length (content (db w' ! i)) \<le> 30000) \<and>
        (\<forall>i<length (db w). content (db w' ! i) = content (db w ! i)))"
proof (intro conjI impI)
  assume h: "in_str ''hmc.edu'' u \<and> (a \<or> count_url (db w) u = 0) \<and>
    fetch_page_data env w u = (Inr (Some data), w1) \<and> 30000 < length (pd_content data)"
  let ?W = "logging (Info_too_long u) (logging (Info_inserting b u) w1)"
  have "add_url_func (add_url n env) env w u model b a =
        (if 0 < b
         then for_links (\<lambda>w' link. add_url n env w' link model (b - 1) False) ?W (pd_links data)
         else Some (Inr (), ?W))"
    using h by (auto simp: add_url_func_def Let_def)
  then show "add_url (Suc n) env w u model b a =
        (if 0 < b
         then for_links (\<lambda>w' link. add_url n env w' link model (b - 1) False) ?W (pd_links data)
         else Some (Inr (), ?W))"
    by (simp add: catch_errors_for_links)
  show "db ?W = db w" using h fetch_page_data_db by auto
next
  assume "add_url n env w u model b a = Some (r, w')"
  from new_rows_gate [OF this]
  show "length (db w) \<le> length (db w')"
    and "\<forall>i. length (db w) \<le> i \<and> i < length (db w') \<longrightarrow> length (content (db w' ! i)) \<le> 30000"
    and "\<forall>i<length (db w). content (db w' ! i) = content (db w ! i)"
    by simp_all
qed

text \<open>
  C9. A call of \<open>add_url\<close> never hands an exception to its caller: whenever it returns
  it returns normally, and it does return, for every URL and budget, once the fuel
  exceeds the distance between the budget and the smallest stored depth. An exception of
  the body is caught by the decorator and logged. When the summarization of a fetched
  page fails, no row is inserted for the page, and the visit continues with the loop over
  the links of the page with the budget decremented by 1 if the budget is positive.
\<close>

theorem add_url_never_raises:
  "(add_url n env w u model b a = Some (r, w') \<longrightarrow> r = Inr ())
   \<and> (nat (b - min_depth (db w)) < n \<longrightarrow>
        (\<exists>w'. add_url n env w u model b a = Some (Inr (), w')))
   \<and> (add_url_func (add_url n env) env w u model b a = Some (Inl e, w1) \<longrightarrow>
        add_url (Suc n) env w u model b a = Some (Inr (), logging (Error_caught e) w1))
   \<and> (in_str ''hmc.edu'' u \<and> (a \<or> count_url (db w) u = 0) \<and>
      fetch_page_data env w u = (Inr (Some data), w2) \<and> length (pd_content data) \<le> 30000 \<and>
      summarize_text env (logging (Info_inserting b u) w2) (pd_content data) model None
        = (Inl e', w3) \<longrightarrow>
        add_url (Suc n) env w u model b a =
          (if 0 < b
           then for_links (\<lambda>w' link. add_url n env w' link model (b - 1) False)
                  (logging (Info_fail_summarize u) w3) (pd_links data)
           else Some (Inr (), logging (Info_fail_summarize u) w3))
        \<and> db (logging (Info_fail_summarize u) w3) = db w)"
proof (intro conjI impI)
  assume "add_url n env w u model b a = Some (r, w')"
  then show "r = Inr ()" using add_url_grows by blast
next
  assume n: "nat (b - min_depth (db w)) < n"
  have "\<exists>w'. add_url n env w u model b a = Some (Inr (), w') \<and>
          (min_depth (db w) \<le> b \<longrightarrow> floor_depth (min_depth (db w)) w')"
    using n by (intro add_url_total floor_depth_min min_depth_nonpos) auto
  then show "\<exists>w'. add_url n env w u model b a = Some (Inr (), w')" by blast
next
  assume "add_url_func (add_url n env) env w u model b a = Some (Inl e, w1)"
  then show "add_url (Suc n) env w u model b a = Some (Inr (), logging (Error_caught e) w1)"
    by simp
next
  assume h: "in_str ''hmc.edu'' u \<and> (a \<or> count_url (db w) u = 0) \<and>
      fetch_page_data env w u = (Inr (Some data), w2) \<and> length (pd_content data) \<le> 30000 \<and>
      summarize_text env (logging (Info_inserting b u) w2) (pd_content data) model None
        = (Inl e', w3)"
  let ?W = "logging (Info_fail_summarize u) w3"
  have "add_url_func (add_url n env) env w u model b a =
          (if 0 < b
           then for_links (\<lambda>w' link. add_url n env w' link model (b - 1) False) ?W (pd_links data)
           else Some (Inr (), ?W))"
    using h by (auto simp: add_url_func_def Let_def)
  then show "add_url (Suc n) env w u model b a =
          (if 0 < b
           then for_links (\<lambda>w' link. add_url n env w' link model (b - 1) False) ?W (pd_links data)
           else Some (Inr (), ?W))"
    by (simp add: catch_errors_for_links)
  have "db w3 = db (logging (Info_inserting b u) w2)" using h summarize_text_db by blast
  then show "db ?W = db w" using h fetch_page_data_db by auto
qed

section \<open>Concrete crawls\<close>

lemmas crawl_simps =
  add_url_func_def Let_def fetch_page_data_def summarize_text_def run_llm_def logging_def
  count_url_def select_depth_def select_rowid_def update_depth_def insert_article_def
  ranking_env_def empty_world_def

lemma upgrade_run:
  "add_urls 2 crawl_env one_page [(''https://www.hmc.edu/old'', ''llama'', 2, False)]
   = Some (\<lparr>db = [old_article\<lparr>depth := 2\<rparr>], clock = 1, fetched = [''https://www.hmc.edu/old''],
            logged = [Info_duplicate 2 ''https://www.hmc.edu/old'',
                      Info_duplicate 1 ''https://www.hmc.edu/old'',
                      Info_outside_url ''https://www.pomona.edu/'']\<rparr>)"
  by (simp add: crawl_simps crawl_env_def campus_page_def one_page_def old_article_def
        numeral_2_eq_2)

lemma upgrade_call:
  "add_url 2 crawl_env one_page ''https://www.hmc.edu/old'' ''llama'' 2 False
   = Some (Inr (),
        \<lparr>db = [old_article\<lparr>depth := 2\<rparr>], clock = 1, fetched = [''https://www.hmc.edu/old''],
            logged = [Info_duplicate 2 ''https://www.hmc.edu/old'',
                      Info_duplicate 1 ''https://www.hmc.edu/old'',
                      Info_outside_url ''https://www.pomona.edu/'']\<rparr>)"
  by (simp add: crawl_simps crawl_env_def campus_page_def one_page_def old_article_def
        numeral_2_eq_2)

theorem stored_depth_never_decreases_witness:
  "add_urls 2 crawl_env one_page [(''https://www.hmc.edu/old'', ''llama'', 2, False)]
   = Some (\<lparr>db = [old_article\<lparr>depth := 2\<rparr>], clock = 1, fetched = [''https://www.hmc.edu/old''],
            logged = [Info_duplicate 2 ''https://www.hmc.edu/old'',
                      Info_duplicate 1 ''https://www.hmc.edu/old'',
                      Info_outside_url ''https://www.pomona.edu/'']\<rparr>)
   \<and> select_depth (db one_page) ''https://www.hmc.edu/old'' = Some 1
   \<and> select_depth [old_article\<lparr>depth := 2\<rparr>] ''https://www.hmc.edu/old'' = Some 2
   \<and> (\<exists>d' ls. select_depth [old_article\<lparr>depth := 2\<rparr>] ''https://www.hmc.edu/old'' = Some d'
         \<and> [Info_duplicate 2 ''https://www.hmc.edu/old'',
             Info_duplicate 1 ''https://www.hmc.edu/old'',
             Info_outside_url ''https://www.pomona.edu/''] = logged one_page @ ls
         \<and> (d' = 1 \<or> (1 < d' \<and> Info_duplicate d' ''https://www.hmc.edu/old'' \<in> set ls)))"
proof -
  let ?W = "\<lparr>db = [old_article\<lparr>depth := 2\<rparr>], clock = 1, fetched = [''https://www.hmc.edu/old''],
            logged = [Info_duplicate 2 ''https://www.hmc.edu/old'',
                      Info_duplicate 1 ''https://www.hmc.edu/old'',
                      Info_outside_url ''https://www.pomona.edu/'']\<rparr>"
  have d: "select_depth (db one_page) ''https://www.hmc.edu/old'' = Some 1"
    by (simp add: one_page_def select_depth_def old_article_def)
  have d2: "select_depth [old_article\<lparr>depth := 2\<rparr>] ''https://www.hmc.edu/old'' = Some 2"
    by (simp add: select_depth_def old_article_def)
  show ?thesis
    using stored_depth_never_decreases [of 2 crawl_env one_page
        "[(''https://www.hmc.edu/old'', ''llama'', 2, False)]" ?W "''https://www.hmc.edu/old''" 1
        "''llama''" 2 "Inr ()" ?W]
      upgrade_run upgrade_call d d2
    by simp
qed

lemma limit_run:
  "add_url 1 (sized_env 30000) empty_world ''https://www.hmc.edu/catalog'' ''llama'' 0 False
   = Some (Inr (),
       \<lparr>db = [\<lparr>title = ''Catalog'', content = replicate 30000 (CHR ''a''),
                url = ''https://www.hmc.edu/catalog'', publish_date = ''Unknown'',
                crawl_date = ''2026-11-01 10:00:00'', summary = ''a summary'', depth = 0\<rparr>],
          clock = 2, fetched = [''https://www.hmc.edu/catalog''],
          logged = [Info_inserting 0 ''https://www.hmc.edu/catalog'', Info_inserting_success]\<rparr>)"
  by (simp add: crawl_simps sized_env_def sized_page_def)

text \<open>
  C2 as the specification words it fails at 30000 characters exactly: the test of the
  source is \<open>len(content) > 30000\<close>, which this page passes, and in this run (the
  generation service answers) it is summarized and stored.
\<close>

theorem add_url_stores_page_of_30000:
  "length (pd_content (sized_page 30000)) = 30000
   \<and> add_url 1 (sized_env 30000) empty_world ''https://www.hmc.edu/catalog'' ''llama'' 0 False
   = Some (Inr (),
       \<lparr>db = [\<lparr>title = ''Catalog'', content = pd_content (sized_page 30000),
                url = ''https://www.hmc.edu/catalog'', publish_date = ''Unknown'',
                crawl_date = ''2026-11-01 10:00:00'', summary = ''a summary'', depth = 0\<rparr>],
          clock = 2, fetched = [''https://www.hmc.edu/catalog''],
          logged = [Info_inserting 0 ''https://www.hmc.edu/catalog'', Info_inserting_success]\<rparr>)"
  using limit_run by (simp add: sized_page_def)

lemma long_run:
  "add_url 2 (sized_env 30001) empty_world ''https://www.hmc.edu/catalog'' ''llama'' 1 False
   = Some (Inr (),
       \<lparr>db = [], clock = 1, fetched = [''https://www.hmc.edu/catalog''],
          logged = [Info_inserting 1 ''https://www.hmc.edu/catalog'',
                    Info_too_long ''https://www.hmc.edu/catalog'',
                    Info_outside_url ''https://www.pomona.edu/'']\<rparr>)"
  by (simp add: crawl_simps sized_env_def sized_page_def numeral_2_eq_2)

theorem add_url_size_gate_witness:
  "in_str ''hmc.edu'' ''https://www.hmc.edu/catalog''
   \<and> count_url (db empty_world) ''https://www.hmc.edu/catalog'' = 0
   \<and> fetch_page_data (sized_env 30001) empty_world ''https://www.hmc.edu/catalog''
       = (Inr (Some (sized_page 30001)),
          \<lparr>db = [], clock = 1, fetched = [''https://www.hmc.edu/catalog''], logged = []\<rparr>)
   \<and> 30000 < length (pd_content (sized_page 30001))
   \<and> add_url 2 (sized_env 30001) empty_world ''https://www.hmc.edu/catalog'' ''llama'' 1 False
     = Some (Inr (),
       \<lparr>db = [], clock = 1, fetched = [''https://www.hmc.edu/catalog''],
          logged = [Info_inserting 1 ''https://www.hmc.edu/catalog'',
                    Info_too_long ''https://www.hmc.edu/catalog'',
                    Info_outside_url ''https://www.pomona.edu/'']\<rparr>)
   \<and> add_url (Suc 1) (sized_env 30001) empty_world ''https://www.hmc.edu/catalog'' ''llama'' 1 False
     = for_links (\<lambda>w' link. add_url 1 (sized_env 30001) w' link ''llama'' (1 - 1) False)
         (logging (Info_too_long ''https://www.hmc.edu/catalog'')
            (logging (Info_inserting 1 ''https://www.hmc.edu/catalog'')
               \<lparr>db = [], clock = 1, fetched = [''https://www.hmc.edu/catalog''], logged = []\<rparr>))
         (pd_links (sized_page 30001))"
proof -
  let ?u = "''https://www.hmc.edu/catalog''"
  let ?w1 = "\<lparr>db = [], clock = 1, fetched = [?u], logged = []\<rparr>"
  let ?W = "\<lparr>db = [], clock = 1, fetched = [?u],
          logged = [Info_inserting 1 ?u, Info_too_long ?u,
                    Info_outside_url ''https://www.pomona.edu/'']\<rparr>"
  have h1: "in_str ''hmc.edu'' ?u" by simp
  have h2: "count_url (db empty_world) ?u = 0" by (simp add: empty_world_def count_url_def)
  have h3: "fetch_page_data (sized_env 30001) empty_world ?u = (Inr (Some (sized_page 30001)), ?w1)"
    by (simp add: fetch_page_data_def sized_env_def empty_world_def ranking_env_def)
  have h4: "30000 < length (pd_content (sized_page 30001))" by (simp add: sized_page_def)
  show ?thesis
    using add_url_size_gate [of ?u False empty_world "sized_env 30001" "sized_page 30001" ?w1
        1 "''llama''" 1 "Inr ()" ?W]
      add_url_size_gate [of ?u False empty_world "sized_env 30001" "sized_page 30001" ?w1
        2 "''llama''" 1 "Inr ()" ?W]
      h1 h2 h3 h4 long_run
    by simp
qed

lemma failing_run:
  "add_url 2 failing_env empty_world ''https://www.hmc.edu/old'' ''llama'' 1 False
   = Some (Inr (),
       \<lparr>db = [], clock = 4,
          fetched = [''https://www.hmc.edu/old'', ''https://www.hmc.edu/old''],
          logged = [Info_inserting 1 ''https://www.hmc.edu/old'',
                    Info_fail_summarize ''https://www.hmc.edu/old'',
                    Info_inserting 0 ''https://www.hmc.edu/old'',
                    Info_fail_summarize ''https://www.hmc.edu/old'',
                    Info_outside_url ''https://www.pomona.edu/'']\<rparr>)"
  by (simp add: crawl_simps failing_env_def campus_page_def numeral_2_eq_2)

lemma broken_body:
  "add_url_func (add_url 0 broken_env) broken_env empty_world ''https://www.hmc.edu/old'' ''llama'' 0 False
   = Some (Inl (FetchError ''Invalid IPv6 URL''),
           \<lparr>db = [], clock = 1, fetched = [''https://www.hmc.edu/old''], logged = []\<rparr>)"
  by (simp add: crawl_simps broken_env_def)

theorem add_url_never_raises_witness:
  "add_url 2 failing_env empty_world ''https://www.hmc.edu/old'' ''llama'' 1 False
   = Some (Inr (),
       \<lparr>db = [], clock = 4,
          fetched = [''https://www.hmc.edu/old'', ''https://www.hmc.edu/old''],
          logged = [Info_inserting 1 ''https://www.hmc.edu/old'',
                    Info_fail_summarize ''https://www.hmc.edu/old'',
                    Info_inserting 0 ''https://www.hmc.edu/old'',
                    Info_fail_summarize ''https://www.hmc.edu/old'',
                    Info_outside_url ''https://www.pomona.edu/'']\<rparr>)
   \<and> nat (1 - min_depth (db empty_world)) < 2
   \<and> add_url (Suc 0) broken_env empty_world ''https://www.hmc.edu/old'' ''llama'' 0 False
     = Some (Inr (), logging (Error_caught (FetchError ''Invalid IPv6 URL''))
           \<lparr>db = [], clock = 1, fetched = [''https://www.hmc.edu/old''], logged = []\<rparr>)
   \<and> add_url (Suc 1) failing_env empty_world ''https://www.hmc.edu/old'' ''llama'' 1 False
     = for_links (\<lambda>w' link. add_url 1 failing_env w' link ''llama'' (1 - 1) False)
         (logging (Info_fail_summarize ''https://www.hmc.edu/old'')
            \<lparr>db = [], clock = 2, fetched = [''https://www.hmc.edu/old''],
               logged = [Info_inserting 1 ''https://www.hmc.edu/old'']\<rparr>)
         (pd_links campus_page)"
proof -
  let ?u = "''https://www.hmc.edu/old''"
  let ?w2 = "\<lparr>db = [], clock = 1, fetched = [?u], logged = []\<rparr>"
  let ?w3 = "\<lparr>db = [], clock = 2, fetched = [?u], logged = [Info_inserting 1 ?u]\<rparr>"
  let ?W = "\<lparr>db = [], clock = 4, fetched = [?u, ?u],
          logged = [Info_inserting 1 ?u, Info_fail_summarize ?u, Info_inserting 0 ?u,
                    Info_fail_summarize ?u, Info_outside_url ''https://www.pomona.edu/'']\<rparr>"
  have h1: "in_str ''hmc.edu'' ?u" by simp
  have h2: "count_url (db empty_world) ?u = 0" by (simp add: empty_world_def count_url_def)
  have h3: "fetch_page_data failing_env empty_world ?u = (Inr (Some campus_page), ?w2)"
    by (simp add: fetch_page_data_def failing_env_def empty_world_def ranking_env_def)
  have h4: "length (pd_content campus_page) \<le> 30000" by (simp add: campus_page_def)
  have h5: "summarize_text failing_env (logging (Info_inserting 1 ?u) ?w2)
              (pd_content campus_page) ''llama'' None = (Inl (GroqError ''connection error''), ?w3)"
    by (simp add: summarize_text_def run_llm_def failing_env_def ranking_env_def logging_def)
  have h6: "nat (1 - min_depth (db empty_world)) < 2" by (simp add: empty_world_def)
  show ?thesis
    using add_url_never_raises [of 2 failing_env empty_world ?u "''llama''" 1 False "Inr ()" ?W]
      add_url_never_raises [of 0 broken_env empty_world ?u "''llama''" 0 False _ _
        "FetchError ''Invalid IPv6 URL''" ?w2]
      add_url_never_raises [of 1 failing_env empty_world ?u "''llama''" 1 False _ _ _ _
        campus_page ?w2 "GroqError ''connection error''" ?w3]
      h1 h2 h3 h4 h5 h6 failing_run broken_body
    by simp
qed

text \<open>
  C5 at a concrete URL. \<open>https://www.pomona.edu/partners/hmc.edu\<close> names the host
  \<open>www.pomona.edu\<close>, which is outside the domain \<open>hmc.edu\<close>, but the text of the
  URL contains \<open>hmc.edu\<close>, and that is all the gate of \<open>add_url\<close> tests: the page
  is fetched and a row is stored for it, where the gate is meant to log
  \<open>outside url, skipped\<close> and return.
\<close>

theorem add_url_stores_outside_host:
  "url_host ''https://www.pomona.edu/partners/hmc.edu'' = ''www.pomona.edu''
   \<and> \<not> host_in_domain ''hmc.edu'' (url_host ''https://www.pomona.edu/partners/hmc.edu'')
   \<and> add_url 1 partner_env empty_world ''https://www.pomona.edu/partners/hmc.edu'' ''llama'' 0 False
     = Some (Inr (),
         \<lparr>db = [\<lparr>title = ''Partner colleges'', content = ''Pomona College partners'',
                  url = ''https://www.pomona.edu/partners/hmc.edu'', publish_date = ''Unknown'',
                  crawl_date = ''2026-11-01 10:00:00'', summary = ''a summary'', depth = 0\<rparr>],
            clock = 2, fetched = [''https://www.pomona.edu/partners/hmc.edu''],
            logged = [Info_inserting 0 ''https://www.pomona.edu/partners/hmc.edu'',
                      Info_inserting_success]\<rparr>)"
  by (simp add: crawl_simps partner_env_def partner_page_def url_host_def host_in_domain_def)

end
